theory Spec2Isabelle
  imports Complex_Main
begin

section \<open>Strings\<close>

text \<open>
  A JavaScript string is a sequence of code units; the model keeps the code units below
  256 as \<^typ>\<open>char\<close>. \<open>isWhiteSpace\<close> holds of the code units that
  \<open>String.prototype.trim\<close> strips in that range: tab, line feed, vertical tab, form
  feed, carriage return, space and no-break space.
\<close>

definition DQUOTE :: char where
  "DQUOTE = CHR 0x22"

definition isWhiteSpace :: "char \<Rightarrow> bool" where
  "isWhiteSpace c \<longleftrightarrow>
     c = CHR 0x09 \<or> c = CHR 0x0A \<or> c = CHR 0x0B \<or> c = CHR 0x0C \<or> c = CHR 0x0D
     \<or> c = CHR 0x20 \<or> c = CHR 0xA0"

definition trimStart :: "string \<Rightarrow> string" where
  "trimStart s = dropWhile isWhiteSpace s"

definition trim :: "string \<Rightarrow> string" where
  "trim s = rev (dropWhile isWhiteSpace (rev (dropWhile isWhiteSpace s)))"

section \<open>The line splitter\<close>

text \<open>
  \<open>splitCsvLine\<close> scans the line once. The loop state is the list of finished fields,
  the field being built and the flag \<open>inQuotes\<close>; the look-ahead \<open>line[i + 1]\<close> is the
  head of the remaining input, absent at the end of the line.
\<close>

fun splitCsvLine_loop :: "string \<Rightarrow> string list \<Rightarrow> string \<Rightarrow> bool \<Rightarrow> string list" where
  "splitCsvLine_loop [] fields current inQuotes = fields @ [trim current]"
| "splitCsvLine_loop (c # rest) fields current inQuotes =
     (if c = DQUOTE then
        (case rest of
           [] \<Rightarrow> splitCsvLine_loop rest fields current (\<not> inQuotes)
         | d # rest' \<Rightarrow>
             if inQuotes \<and> d = DQUOTE
             then splitCsvLine_loop rest' fields (current @ [DQUOTE]) inQuotes
             else splitCsvLine_loop rest fields current (\<not> inQuotes))
      else if c = CHR '','' \<and> \<not> inQuotes
      then splitCsvLine_loop rest (fields @ [trim current]) [] inQuotes
      else splitCsvLine_loop rest fields (current @ [c]) inQuotes)"

definition splitCsvLine :: "string \<Rightarrow> string list" where
  "splitCsvLine line = splitCsvLine_loop line [] [] False"

section \<open>Numbers\<close>

text \<open>
  A JavaScript number is an IEEE 754 binary64 value: not-a-number, an infinity with its
  sign, or a finite value, kept here as its sign (\<open>True\<close> for negative, so that the
  negative zero is \<open>Num True 0\<close>) and its exact magnitude. \<open>roundBinary64\<close> rounds
  a non-negative rational to the nearest binary64 magnitude, ties to the even significand:
  53 significant bits, the smallest unit \<open>2^-1074\<close>, and \<open>None\<close> when the rounded value
  reaches \<open>2^1024\<close>, where the number overflows to an infinity. The rounding works on
  the numerator and the denominator: with \<open>q\<close> the exponent of the unit in the last place,
  the significand is the integer nearest to \<open>a / (b * 2^q)\<close>.
\<close>

datatype number = NaN | Infinity bool | Num bool rat

function bitlen :: "int \<Rightarrow> nat" where
  "bitlen n = (if n \<le> 0 then 0 else Suc (bitlen (n div 2)))"
  by pat_completeness auto
termination
  by (relation "measure nat") auto

declare bitlen.simps [simp del]

definition pow2 :: "int \<Rightarrow> rat" where
  "pow2 k = (if 0 \<le> k then 2 ^ nat k else 1 / 2 ^ nat (- k))"

text \<open>\<open>floorLog2 a b\<close> is the integer part of the binary logarithm of \<open>a / b\<close>.\<close>

definition floorLog2 :: "int \<Rightarrow> int \<Rightarrow> int" where
  "floorLog2 a b =
     (let k = int (bitlen a) - int (bitlen b)
      in if (if 0 \<le> k then b * 2 ^ nat k \<le> a else b \<le> a * 2 ^ nat (- k)) then k
         else k - 1)"

text \<open>\<open>roundHalfEvenDiv a b\<close> is the integer nearest to \<open>a / b\<close>, the even one at a tie.\<close>

definition roundHalfEvenDiv :: "int \<Rightarrow> int \<Rightarrow> int" where
  "roundHalfEvenDiv a b =
     (let n = a div b; r = a mod b
      in if 2 * r < b then n else if b < 2 * r then n + 1
         else if even n then n else n + 1)"

definition roundQuotient :: "int \<Rightarrow> int \<Rightarrow> rat option" where
  "roundQuotient a b =
     (if a = 0 then Some 0
      else let q = max (floorLog2 a b - 52) (- 1074);
               n = (if q < 0 then roundHalfEvenDiv (a * 2 ^ nat (- q)) b
                    else roundHalfEvenDiv a (b * 2 ^ nat q))
           in if q < 971 then Some (of_int n * pow2 q)
              else if 971 < q \<or> 2 ^ 53 \<le> n then None
              else Some (of_int n * pow2 q))"

definition roundBinary64 :: "rat \<Rightarrow> rat option" where
  "roundBinary64 x = (let (a, b) = quotient_of x in roundQuotient a b)"

definition toNumber :: "bool \<Rightarrow> rat \<Rightarrow> number" where
  "toNumber neg x = (case roundBinary64 x of None \<Rightarrow> Infinity neg | Some r \<Rightarrow> Num neg r)"

definition isNaN :: "number \<Rightarrow> bool" where
  "isNaN x \<longleftrightarrow> x = NaN"

fun jsAbs :: "number \<Rightarrow> number" where
  "jsAbs NaN = NaN"
| "jsAbs (Infinity s) = Infinity False"
| "jsAbs (Num s m) = Num False m"

fun jsNeg :: "number \<Rightarrow> number" where
  "jsNeg NaN = NaN"
| "jsNeg (Infinity s) = Infinity (\<not> s)"
| "jsNeg (Num s m) = Num (\<not> s) m"

fun jsMul :: "number \<Rightarrow> number \<Rightarrow> number" where
  "jsMul NaN y = NaN"
| "jsMul x NaN = NaN"
| "jsMul (Infinity s) (Infinity t) = Infinity (s \<noteq> t)"
| "jsMul (Infinity s) (Num t n) = (if n = 0 then NaN else Infinity (s \<noteq> t))"
| "jsMul (Num s m) (Infinity t) = (if m = 0 then NaN else Infinity (s \<noteq> t))"
| "jsMul (Num s m) (Num t n) = toNumber (s \<noteq> t) (m * n)"

text \<open>
  \<open>Math.round\<close> gives the integer nearest to its argument, the larger one of two
  equally near; a result of zero keeps the sign of the argument.
\<close>

fun jsRound :: "number \<Rightarrow> number" where
  "jsRound NaN = NaN"
| "jsRound (Infinity s) = Infinity s"
| "jsRound (Num s m) =
     (let r = \<lfloor>(if s then - m else m) + 1 / 2\<rfloor>
      in if r = 0 then Num s 0 else Num (r < 0) (of_int \<bar>r\<bar>))"

definition signedValue :: "bool \<Rightarrow> rat \<Rightarrow> rat" where
  "signedValue s m = (if s then - m else m)"

fun jsGreater :: "number \<Rightarrow> number \<Rightarrow> bool" where
  "jsGreater NaN y = False"
| "jsGreater x NaN = False"
| "jsGreater (Infinity s) (Infinity t) = (\<not> s \<and> t)"
| "jsGreater (Infinity s) (Num t n) = (\<not> s)"
| "jsGreater (Num s m) (Infinity t) = t"
| "jsGreater (Num s m) (Num t n) = (signedValue t n < signedValue s m)"

subsection \<open>Decimal digits\<close>

definition isDigit :: "char \<Rightarrow> bool" where
  "isDigit c \<longleftrightarrow> c \<in> set ''0123456789''"

definition digitVal :: "char \<Rightarrow> int" where
  "digitVal c = of_char c - 48"

definition decimalValue :: "string \<Rightarrow> int" where
  "decimalValue ds = foldl (\<lambda>n c. 10 * n + digitVal c) 0 ds"

fun showNat :: "nat \<Rightarrow> string" where
  "showNat n = (if n < 10 then [char_of (48 + n)] else showNat (n div 10) @ [char_of (48 + n mod 10)])"

declare showNat.simps [simp del]

definition startsWith :: "string \<Rightarrow> string \<Rightarrow> bool" where
  "startsWith s p \<longleftrightarrow> take (length p) s = p"

subsection \<open>parseFloat\<close>

text \<open>
  \<open>parseFloat\<close> skips leading white space and reads the longest prefix that is a decimal
  literal: an optional sign, then \<open>Infinity\<close>, or digits with an optional fraction, or a
  fraction alone, then an optional exponent (taken only when it has a digit). The rest of
  the string is ignored; with no such prefix the result is \<open>NaN\<close>. The value read is
  rounded to binary64.
\<close>

definition readSign :: "string \<Rightarrow> bool \<times> string" where
  "readSign s =
     (case s of
        [] \<Rightarrow> (False, s)
      | c # rest \<Rightarrow> if c = CHR ''-'' then (True, rest) else if c = CHR ''+'' then (False, rest)
                  else (False, s))"

definition readExponent :: "string \<Rightarrow> int" where
  "readExponent s =
     (case s of
        [] \<Rightarrow> 0
      | c # rest \<Rightarrow>
          if c = CHR ''e'' \<or> c = CHR ''E'' then
            (let (neg, r) = readSign rest; ds = takeWhile isDigit r
             in if ds = [] then 0
                else if neg then - decimalValue ds else decimalValue ds)
          else 0)"

definition power10 :: "int \<Rightarrow> rat" where
  "power10 k = (if 0 \<le> k then 10 ^ nat k else 1 / 10 ^ nat (- k))"

definition readUnsigned :: "bool \<Rightarrow> string \<Rightarrow> number" where
  "readUnsigned neg s =
     (if startsWith s ''Infinity'' then Infinity neg
      else
        let ip = takeWhile isDigit s;
            r1 = dropWhile isDigit s;
            hasDot = (r1 \<noteq> [] \<and> hd r1 = CHR ''.'');
            fp = (if hasDot then takeWhile isDigit (tl r1) else []);
            r2 = (if hasDot then dropWhile isDigit (tl r1) else r1)
        in if ip = [] \<and> fp = [] then NaN
           else toNumber neg
                  (of_int (decimalValue (ip @ fp))
                     * power10 (readExponent r2 - int (length fp))))"

definition parseFloat :: "string \<Rightarrow> number" where
  "parseFloat str = (let (neg, s) = readSign (trimStart str) in readUnsigned neg s)"

subsection \<open>parseInt\<close>

text \<open>
  \<open>parseInt\<close> with no radix skips leading white space, reads an optional sign and the
  longest run of decimal digits, and gives \<open>NaN\<close> (here \<open>None\<close>) when there is no
  digit. The hexadecimal prefix \<open>0x\<close> is left out: \<open>parseDate\<close> passes only the digit
  groups of its pattern.
\<close>

definition parseInt :: "string \<Rightarrow> int option" where
  "parseInt str =
     (let (neg, s) = readSign (trimStart str); ds = takeWhile isDigit s
      in if ds = [] then None
         else Some (if neg then - decimalValue ds else decimalValue ds))"

section \<open>Dates\<close>

text \<open>
  A \<open>Date\<close> holds a time value in milliseconds, or \<open>NaN\<close> (here \<open>None\<close>) when it is
  invalid. \<open>new Date(year, month, day, hours, minutes, seconds)\<close> maps a year from 0 to
  99 to 1900 plus that year, lets \<open>MakeDay\<close> carry a month outside 0..11 into the year
  and count the day of the month on from the first of that month, and clips the time value
  to the range of 8.64e15 milliseconds around the epoch. The time zone of the host is taken
  to be UTC, so that local time and UTC agree.
\<close>

datatype Date = Date (getTime: "int option")

definition DayFromYear :: "int \<Rightarrow> int" where
  "DayFromYear y =
     365 * (y - 1970) + (y - 1969) div 4 - (y - 1901) div 100 + (y - 1601) div 400"

definition InLeapYear :: "int \<Rightarrow> bool" where
  "InLeapYear y \<longleftrightarrow> (y mod 4 = 0 \<and> y mod 100 \<noteq> 0) \<or> y mod 400 = 0"

definition monthStart :: "int \<Rightarrow> int list" where
  "monthStart y =
     (if InLeapYear y then [0, 31, 60, 91, 121, 152, 182, 213, 244, 274, 305, 335]
      else [0, 31, 59, 90, 120, 151, 181, 212, 243, 273, 304, 334])"

definition MakeDay :: "int \<Rightarrow> int \<Rightarrow> int \<Rightarrow> int" where
  "MakeDay year month dt =
     (let ym = year + month div 12; mn = month mod 12
      in DayFromYear ym + monthStart ym ! nat mn + dt - 1)"

definition MakeTime :: "int \<Rightarrow> int \<Rightarrow> int \<Rightarrow> int \<Rightarrow> int" where
  "MakeTime hour minute sec ms = hour * 3600000 + minute * 60000 + sec * 1000 + ms"

definition MakeDate :: "int \<Rightarrow> int \<Rightarrow> int" where
  "MakeDate day time = day * 86400000 + time"

definition TimeClip :: "int \<Rightarrow> int option" where
  "TimeClip t = (if 8640000000000000 < \<bar>t\<bar> then None else Some t)"

definition newDate ::
  "int option \<Rightarrow> int option \<Rightarrow> int option \<Rightarrow> int \<Rightarrow> int \<Rightarrow> int \<Rightarrow> Date" where
  "newDate year month day hours minutes seconds =
     (case (year, month, day) of
        (Some y, Some m, Some d) \<Rightarrow>
          (let yr = (if 0 \<le> y \<and> y \<le> 99 then 1900 + y else y)
           in Date (TimeClip (MakeDate (MakeDay yr m d) (MakeTime hours minutes seconds 0))))
      | _ \<Rightarrow> Date None)"

text \<open>
  \<open>matchDate\<close> is the match of \<open>/^(\d{1,2})\/(\d{1,2})\/(\d{4})$/\<close>: it returns the
  three groups. A group of digits is followed by a character that is not a digit (or by the
  end), so the greedy \<open>\d{1,2}\<close> has one way to match: the whole run of digits.
\<close>

definition digitsUpTo :: "nat \<Rightarrow> string \<Rightarrow> string \<times> string" where
  "digitsUpTo n s = (let ds = takeWhile isDigit (take n s) in (ds, drop (length ds) s))"

definition matchYear :: "string \<Rightarrow> string \<Rightarrow> string \<Rightarrow> (string \<times> string \<times> string) option" where
  "matchYear month day s =
     (let (year, rest) = digitsUpTo 4 s
      in if length year = 4 \<and> rest = [] then Some (month, day, year) else None)"

definition matchDay :: "string \<Rightarrow> string \<Rightarrow> (string \<times> string \<times> string) option" where
  "matchDay month s =
     (let (day, rest) = digitsUpTo 2 s
      in if day = [] then None
         else (case rest of
                 [] \<Rightarrow> None
               | c # rest' \<Rightarrow> (if c = CHR ''/'' then matchYear month day rest' else None)))"

definition matchDate :: "string \<Rightarrow> (string \<times> string \<times> string) option" where
  "matchDate dateStr =
     (let (month, rest) = digitsUpTo 2 dateStr
      in if month = [] then None
         else (case rest of
                 [] \<Rightarrow> None
               | c # rest' \<Rightarrow> (if c = CHR ''/'' then matchDay month rest' else None)))"

definition parseDate :: "string \<Rightarrow> Date option" where
  "parseDate dateStr =
     (case matchDate dateStr of
        None \<Rightarrow> None
      | Some (month, day, year) \<Rightarrow>
          (let date = newDate (parseInt year) (map_option (\<lambda>m. m - 1) (parseInt month))
                        (parseInt day) 12 0 0
           in if getTime date = None then None else Some date))"

section \<open>Transactions\<close>

record CsvTransaction =
  id_tx :: string
  date :: Date
  amount :: number
  rawAmount :: number
  isCredit :: bool
  description :: string
  selected :: bool

datatype CsvFormat = WellsFargo | Chase | BankOfAmerica | CapitalOne

datatype CsvParseResult =
    Success (transactions: "CsvTransaction list") (detectedFormat: CsvFormat)
  | Failure (error: string)

definition toMinorUnits :: "number \<Rightarrow> number" where
  "toMinorUnits decimal = jsRound (jsMul (jsAbs decimal) (Num False 100))"

text \<open>
  \<open>nanoid()\<close> draws a fresh random identifier; \<open>makeTransaction\<close> takes the identifier
  drawn for it as its first argument.
\<close>

definition makeTransaction :: "string \<Rightarrow> Date \<Rightarrow> number \<Rightarrow> string \<Rightarrow> CsvTransaction" where
  "makeTransaction ident dt raw desc =
     (let credit = jsGreater raw (Num False 0)
      in \<lparr> id_tx = ident, date = dt, amount = toMinorUnits raw, rawAmount = raw,
           isCredit = credit, description = trim desc, selected = (\<not> credit) \<rparr>)"

section \<open>Lines of the input\<close>

text \<open>
  \<open>text.split(/\r?\n/)\<close> cuts the text at every line feed, together with a carriage
  return right before it; the last piece runs to the end of the text. The pieces that are
  empty after trimming are dropped.
\<close>

fun splitLines_loop :: "string \<Rightarrow> string \<Rightarrow> string list" where
  "splitLines_loop [] current = [current]"
| "splitLines_loop (c # rest) current =
     (if c = CHR 0x0A then current # splitLines_loop rest []
      else (case rest of
              [] \<Rightarrow> splitLines_loop rest (current @ [c])
            | d # rest' \<Rightarrow>
                (if c = CHR 0x0D \<and> d = CHR 0x0A then current # splitLines_loop rest' []
                 else splitLines_loop rest (current @ [c]))))"

definition splitLines :: "string \<Rightarrow> string list" where
  "splitLines txt = splitLines_loop txt []"

definition nonBlankLines :: "string \<Rightarrow> string list" where
  "nonBlankLines txt = filter (\<lambda>l. 0 < length (trim l)) (splitLines txt)"

section \<open>Format detection\<close>

definition toLowerChar :: "char \<Rightarrow> char" where
  "toLowerChar c =
     (let n = (of_char c :: nat)
      in if (65 \<le> n \<and> n \<le> 90) \<or> (192 \<le> n \<and> n \<le> 222 \<and> n \<noteq> 215)
         then char_of (n + 32) else c)"

definition toLowerCase :: "string \<Rightarrow> string" where
  "toLowerCase s = map toLowerChar s"

fun includesStr :: "string \<Rightarrow> string \<Rightarrow> bool" where
  "includesStr [] sub = (sub = [])"
| "includesStr (c # cs) sub = (startsWith (c # cs) sub \<or> includesStr cs sub)"

definition detectCsvFormat :: "string \<Rightarrow> CsvFormat option" where
  "detectCsvFormat txt =
     (case nonBlankLines txt of
        [] \<Rightarrow> None
      | line0 # _ \<Rightarrow>
          (let firstLine = toLowerCase line0
           in if includesStr firstLine ''transaction date'' \<and> includesStr firstLine ''post date''
                 \<and> includesStr firstLine ''category'' \<and> includesStr firstLine ''type''
              then Some Chase
              else if includesStr firstLine ''transaction date''
                 \<and> includesStr firstLine ''posted date''
                 \<and> includesStr firstLine ''debit'' \<and> includesStr firstLine ''credit''
              then Some CapitalOne
              else if includesStr firstLine ''date'' \<and> includesStr firstLine ''description''
                 \<and> includesStr firstLine ''running bal''
              then Some BankOfAmerica
              else (let fields = splitCsvLine line0
                    in if length fields = 5 \<and> fields ! 2 = ''*'' then Some WellsFargo
                       else None)))"

section \<open>Row parsers\<close>

text \<open>
  The body of each parser's loop, for the row at index \<open>i\<close>: the diagnostic of the first
  check that fails, or the date, the signed amount and the description field that go to
  \<open>makeTransaction\<close>.
\<close>

definition rowPrefix :: "nat \<Rightarrow> string" where
  "rowPrefix i = ''Row '' @ showNat (i + 1) @ '': ''"

definition invalidDate :: "nat \<Rightarrow> string \<Rightarrow> string" where
  "invalidDate i field = rowPrefix i @ ''Invalid date '' @ [DQUOTE] @ field @ [DQUOTE] @ ''.''"

definition invalidAmount :: "nat \<Rightarrow> string \<Rightarrow> string" where
  "invalidAmount i field =
     rowPrefix i @ ''Invalid amount '' @ [DQUOTE] @ field @ [DQUOTE] @ ''.''"

type_synonym row = "Date \<times> number \<times> string"

definition wellsFargoRow :: "nat \<Rightarrow> string \<Rightarrow> string + row" where
  "wellsFargoRow i line =
     (let fields = splitCsvLine line
      in if length fields \<noteq> 5
         then Inl (rowPrefix i @ ''Expected 5 columns but found ''
                     @ showNat (length fields) @ ''.'')
         else (case parseDate (fields ! 0) of
                 None \<Rightarrow> Inl (invalidDate i (fields ! 0))
               | Some dt \<Rightarrow>
                   (let raw = parseFloat (fields ! 1)
                    in if isNaN raw then Inl (invalidAmount i (fields ! 1))
                       else Inr (dt, raw, fields ! 4))))"

definition chaseRow :: "nat \<Rightarrow> string \<Rightarrow> string + row" where
  "chaseRow i line =
     (let fields = splitCsvLine line
      in if length fields < 6
         then Inl (rowPrefix i @ ''Expected at least 6 columns but found ''
                     @ showNat (length fields) @ ''.'')
         else (case parseDate (fields ! 0) of
                 None \<Rightarrow> Inl (invalidDate i (fields ! 0))
               | Some dt \<Rightarrow>
                   (let raw = parseFloat (fields ! 5)
                    in if isNaN raw then Inl (invalidAmount i (fields ! 5))
                       else Inr (dt, raw, fields ! 2))))"

definition bankOfAmericaRow :: "nat \<Rightarrow> string \<Rightarrow> string + row" where
  "bankOfAmericaRow i line =
     (let fields = splitCsvLine line
      in if length fields < 3
         then Inl (rowPrefix i @ ''Expected at least 3 columns but found ''
                     @ showNat (length fields) @ ''.'')
         else (case parseDate (fields ! 0) of
                 None \<Rightarrow> Inl (invalidDate i (fields ! 0))
               | Some dt \<Rightarrow>
                   (let raw = parseFloat (fields ! 2)
                    in if isNaN raw then Inl (invalidAmount i (fields ! 2))
                       else Inr (dt, raw, fields ! 1))))"

definition capitalOneRow :: "nat \<Rightarrow> string \<Rightarrow> string + row" where
  "capitalOneRow i line =
     (let fields = splitCsvLine line
      in if length fields < 7
         then Inl (rowPrefix i @ ''Expected at least 7 columns but found ''
                     @ showNat (length fields) @ ''.'')
         else (case parseDate (fields ! 0) of
                 None \<Rightarrow> Inl (invalidDate i (fields ! 0))
               | Some dt \<Rightarrow>
                   (let debit = parseFloat (fields ! 5);
                        credit = parseFloat (fields ! 6);
                        hasDebit = (\<not> isNaN debit \<and> trim (fields ! 5) \<noteq> []);
                        hasCredit = (\<not> isNaN credit \<and> trim (fields ! 6) \<noteq> [])
                    in if \<not> hasDebit \<and> \<not> hasCredit
                       then Inl (rowPrefix i @ ''No debit or credit amount found.'')
                       else Inr (dt, if hasDebit then jsNeg (jsAbs debit) else jsAbs credit,
                                 fields ! 3))))"

text \<open>
  The loop shared by the four parsers: it walks the rows from index \<open>i\<close> on, returns the
  diagnostic of the first row whose body fails, and otherwise pushes the transaction of
  each row. \<open>nanoid k\<close> is the identifier that the call number \<open>k\<close> of \<open>nanoid()\<close> draws
  during this parse; one is drawn for each transaction.
\<close>

fun parseRows ::
  "(nat \<Rightarrow> string \<Rightarrow> string + row) \<Rightarrow> (nat \<Rightarrow> string) \<Rightarrow> nat \<Rightarrow> string list
     \<Rightarrow> CsvTransaction list \<Rightarrow> string + CsvTransaction list" where
  "parseRows body nanoid i [] txs = Inr txs"
| "parseRows body nanoid i (line # rest) txs =
     (case body i line of
        Inl e \<Rightarrow> Inl e
      | Inr (dt, raw, desc) \<Rightarrow>
          parseRows body nanoid (i + 1) rest
            (txs @ [makeTransaction (nanoid (length txs)) dt raw desc]))"

definition finish :: "CsvFormat \<Rightarrow> string + CsvTransaction list \<Rightarrow> CsvParseResult" where
  "finish fmt r = (case r of Inl e \<Rightarrow> Failure e | Inr txs \<Rightarrow> Success txs fmt)"

definition parseWellsFargo :: "(nat \<Rightarrow> string) \<Rightarrow> string list \<Rightarrow> CsvParseResult" where
  "parseWellsFargo nanoid lines = finish WellsFargo (parseRows wellsFargoRow nanoid 0 lines [])"

definition parseChase :: "(nat \<Rightarrow> string) \<Rightarrow> string list \<Rightarrow> CsvParseResult" where
  "parseChase nanoid lines = finish Chase (parseRows chaseRow nanoid 1 (drop 1 lines) [])"

definition parseBankOfAmerica :: "(nat \<Rightarrow> string) \<Rightarrow> string list \<Rightarrow> CsvParseResult" where
  "parseBankOfAmerica nanoid lines =
     finish BankOfAmerica (parseRows bankOfAmericaRow nanoid 1 (drop 1 lines) [])"

definition parseCapitalOne :: "(nat \<Rightarrow> string) \<Rightarrow> string list \<Rightarrow> CsvParseResult" where
  "parseCapitalOne nanoid lines =
     finish CapitalOne (parseRows capitalOneRow nanoid 1 (drop 1 lines) [])"

section \<open>The entry point\<close>

fun parsers :: "CsvFormat \<Rightarrow> (nat \<Rightarrow> string) \<Rightarrow> string list \<Rightarrow> CsvParseResult" where
  "parsers WellsFargo = parseWellsFargo"
| "parsers Chase = parseChase"
| "parsers BankOfAmerica = parseBankOfAmerica"
| "parsers CapitalOne = parseCapitalOne"

definition parseCsv :: "(nat \<Rightarrow> string) \<Rightarrow> string \<Rightarrow> CsvFormat option \<Rightarrow> CsvParseResult" where
  "parseCsv nanoid txt format =
     (let lines = nonBlankLines txt
      in if length lines = 0 then Failure ''The file is empty.''
         else (case (case format of Some f \<Rightarrow> Some f | None \<Rightarrow> detectCsvFormat txt) of
                 None \<Rightarrow>
                   Failure ''Could not detect the CSV format. Please select your bank format manually.''
               | Some fmt \<Rightarrow>
                   (let result = parsers fmt nanoid lines
                    in (case result of
                          Success txs _ \<Rightarrow>
                            (if length txs = 0
                             then Failure ''No valid transactions found in the file.''
                             else result)
                        | Failure _ \<Rightarrow> result))))"

section \<open>Notions used to state the properties\<close>

text \<open>
  The loop body and the index of the first row that each parser processes: the headerless
  format starts at row 0, the formats with a header skip it.
\<close>

fun rowBody :: "CsvFormat \<Rightarrow> nat \<Rightarrow> string \<Rightarrow> string + row" where
  "rowBody WellsFargo = wellsFargoRow"
| "rowBody Chase = chaseRow"
| "rowBody BankOfAmerica = bankOfAmericaRow"
| "rowBody CapitalOne = capitalOneRow"

fun firstRow :: "CsvFormat \<Rightarrow> nat" where
  "firstRow WellsFargo = 0"
| "firstRow Chase = 1"
| "firstRow BankOfAmerica = 1"
| "firstRow CapitalOne = 1"

text \<open>The format that \<open>parseCsv\<close> dispatches on: \<open>format ?? detectCsvFormat(text)\<close>.\<close>

definition chosenFormat :: "string \<Rightarrow> CsvFormat option \<Rightarrow> CsvFormat option" where
  "chosenFormat txt format = (case format of Some f \<Rightarrow> Some f | None \<Rightarrow> detectCsvFormat txt)"

text \<open>An outcome with the identifiers of its transactions blanked.\<close>

definition eraseId :: "CsvTransaction \<Rightarrow> CsvTransaction" where
  "eraseId t = t\<lparr> id_tx := [] \<rparr>"

definition eraseIds :: "CsvParseResult \<Rightarrow> CsvParseResult" where
  "eraseIds r = (case r of Success txs fmt \<Rightarrow> Success (map eraseId txs) fmt | Failure e \<Rightarrow> Failure e)"

text \<open>
  The first non-blank line of a text, and the detection rules as an ordered table of
  tests on that line paired with formats, read from top to bottom for the first test that
  holds.
\<close>

definition firstNonBlankLine :: "string \<Rightarrow> string option" where
  "firstNonBlankLine txt = (case nonBlankLines txt of [] \<Rightarrow> None | l # _ \<Rightarrow> Some l)"

definition hasKeywords :: "string list \<Rightarrow> string \<Rightarrow> bool" where
  "hasKeywords ks l = list_all (includesStr (toLowerCase l)) ks"

definition headerlessShape :: "string \<Rightarrow> bool" where
  "headerlessShape l \<longleftrightarrow> length (splitCsvLine l) = 5 \<and> splitCsvLine l ! 2 = ''*''"

definition detectionOrder :: "((string \<Rightarrow> bool) \<times> CsvFormat) list" where
  "detectionOrder =
     [(hasKeywords [''transaction date'', ''post date'', ''category'', ''type''], Chase),
      (hasKeywords [''transaction date'', ''posted date'', ''debit'', ''credit''], CapitalOne),
      (hasKeywords [''date'', ''description'', ''running bal''], BankOfAmerica),
      (headerlessShape, WellsFargo)]"

fun firstMatch :: "(('a \<Rightarrow> bool) \<times> 'b) list \<Rightarrow> 'a \<Rightarrow> 'b option" where
  "firstMatch [] x = None"
| "firstMatch ((p, r) # rest) x = (if p x then Some r else firstMatch rest x)"

text \<open>
  A line written from fields: a field is written as it is when it holds neither a quote
  nor a comma, or between quotes with every quote of its content doubled; the fields are
  joined with commas.
\<close>

definition plainField :: "string \<Rightarrow> bool" where
  "plainField s \<longleftrightarrow> DQUOTE \<notin> set s \<and> CHR '','' \<notin> set s"

definition doubleQuotes :: "string \<Rightarrow> string" where
  "doubleQuotes s = concat (map (\<lambda>c. if c = DQUOTE then [DQUOTE, DQUOTE] else [c]) s)"

definition quoteField :: "string \<Rightarrow> string" where
  "quoteField s = [DQUOTE] @ doubleQuotes s @ [DQUOTE]"

definition writeField :: "bool \<times> string \<Rightarrow> string" where
  "writeField f = (if fst f then quoteField (snd f) else snd f)"

fun joinComma :: "string list \<Rightarrow> string" where
  "joinComma [] = []"
| "joinComma [x] = x"
| "joinComma (x # y # ys) = x @ [CHR '',''] @ joinComma (y # ys)"

definition stripped :: "string \<Rightarrow> bool" where
  "stripped s \<longleftrightarrow> s = [] \<or> (\<not> isWhiteSpace (hd s) \<and> \<not> isWhiteSpace (last s))"

text \<open>
  Notions for the amounts: the rounding of a rational to the nearest integer with halves
  going up, the numbers that are a zero of either sign, the numbers whose magnitude is not
  negative (all those that the parsers produce), and a supply of identifiers.
\<close>

definition roundHalfUp :: "rat \<Rightarrow> int" where
  "roundHalfUp x = \<lfloor>x + 1 / 2\<rfloor>"

fun isZero :: "number \<Rightarrow> bool" where
  "isZero (Num s m) = (m = 0)"
| "isZero x = False"

fun wellFormed :: "number \<Rightarrow> bool" where
  "wellFormed (Num s m) = (0 \<le> m)"
| "wellFormed x = True"

definition sampleIds :: "nat \<Rightarrow> string" where
  "sampleIds k = ''tx'' @ showNat k"

text \<open>
  The date layout in words: one or two digits, a slash, one or two digits, a slash, four
  digits, and nothing else.
\<close>

definition digitString :: "string \<Rightarrow> bool" where
  "digitString s \<longleftrightarrow> list_all isDigit s"

definition matchesDatePattern :: "string \<Rightarrow> bool" where
  "matchesDatePattern s \<longleftrightarrow>
     (\<exists>m d y. s = m @ ''/'' @ d @ ''/'' @ y
        \<and> digitString m \<and> (length m = 1 \<or> length m = 2)
        \<and> digitString d \<and> (length d = 1 \<or> length d = 2)
        \<and> digitString y \<and> length y = 4)"

text \<open>The year that the \<open>Date\<close> constructor uses for a given year argument.\<close>

definition fullYear :: "int \<Rightarrow> int" where
  "fullYear y = (if 0 \<le> y \<and> y \<le> 99 then 1900 + y else y)"

text \<open>
  The decimal literals that \<open>parseFloat\<close> reads, after the grammar of the language: an
  optional sign, then \<open>Infinity\<close>, or digits with an optional fraction, or a fraction
  alone, each with an optional exponent. A string has a numeric prefix when, after its
  leading white space, it starts with such a literal.
\<close>

definition decimalDigits :: "string \<Rightarrow> bool" where
  "decimalDigits ds \<longleftrightarrow> ds \<noteq> [] \<and> digitString ds"

definition signPrefix :: "string \<Rightarrow> bool" where
  "signPrefix sg \<longleftrightarrow> sg = [] \<or> sg = ''+'' \<or> sg = ''-''"

definition exponentPart :: "string \<Rightarrow> bool" where
  "exponentPart ex \<longleftrightarrow>
     (\<exists>ind sg ds. ex = ind # sg @ ds \<and> (ind = CHR ''e'' \<or> ind = CHR ''E'')
        \<and> signPrefix sg \<and> decimalDigits ds)"

definition optExponent :: "string \<Rightarrow> bool" where
  "optExponent ex \<longleftrightarrow> ex = [] \<or> exponentPart ex"

definition strUnsignedDecimalLiteral :: "string \<Rightarrow> bool" where
  "strUnsignedDecimalLiteral u \<longleftrightarrow>
     u = ''Infinity''
     \<or> (\<exists>ip fp ex. u = ip @ ''.'' @ fp @ ex \<and> decimalDigits ip \<and> digitString fp
           \<and> optExponent ex)
     \<or> (\<exists>fp ex. u = ''.'' @ fp @ ex \<and> decimalDigits fp \<and> optExponent ex)
     \<or> (\<exists>ip ex. u = ip @ ex \<and> decimalDigits ip \<and> optExponent ex)"

definition strDecimalLiteral :: "string \<Rightarrow> bool" where
  "strDecimalLiteral p \<longleftrightarrow>
     (\<exists>sg u. p = sg @ u \<and> signPrefix sg \<and> strUnsignedDecimalLiteral u)"

definition hasNumericPrefix :: "string \<Rightarrow> bool" where
  "hasNumericPrefix s \<longleftrightarrow> (\<exists>p rest. trimStart s = p @ rest \<and> strDecimalLiteral p)"

definition noDigits :: "string \<Rightarrow> bool" where
  "noDigits s \<longleftrightarrow> list_all (\<lambda>c. \<not> isDigit c) s"

text \<open>
  The columns of each format: the least number of fields (exactly five for the headerless
  format), the column of the amount (of the debit for the split format) and the column of
  the description.
\<close>

fun columnsOk :: "CsvFormat \<Rightarrow> nat \<Rightarrow> bool" where
  "columnsOk WellsFargo n = (n = 5)"
| "columnsOk Chase n = (6 \<le> n)"
| "columnsOk BankOfAmerica n = (3 \<le> n)"
| "columnsOk CapitalOne n = (7 \<le> n)"

fun amountColumn :: "CsvFormat \<Rightarrow> nat" where
  "amountColumn WellsFargo = 1"
| "amountColumn Chase = 5"
| "amountColumn BankOfAmerica = 2"
| "amountColumn CapitalOne = 5"

fun descriptionColumn :: "CsvFormat \<Rightarrow> nat" where
  "descriptionColumn WellsFargo = 4"
| "descriptionColumn Chase = 2"
| "descriptionColumn BankOfAmerica = 1"
| "descriptionColumn CapitalOne = 3"

text \<open>
  A row with a defect, in the words of the specification: too few fields for the format
  (not exactly five for the headerless one), a date field that does not fit the date
  layout, or an amount field with no numeric prefix; in the split format the amount is
  missing when neither the debit nor the credit column has a numeric prefix.
\<close>

definition rowDefect :: "CsvFormat \<Rightarrow> string \<Rightarrow> bool" where
  "rowDefect fmt line \<longleftrightarrow>
     (let flds = splitCsvLine line
      in \<not> columnsOk fmt (length flds)
         \<or> \<not> matchesDatePattern (flds ! 0)
         \<or> (if fmt = CapitalOne
             then \<not> hasNumericPrefix (flds ! 5) \<and> \<not> hasNumericPrefix (flds ! 6)
             else \<not> hasNumericPrefix (flds ! amountColumn fmt)))"


definition acceptsRow :: "CsvParseResult \<Rightarrow> nat \<Rightarrow> number \<Rightarrow> bool" where
  "acceptsRow r k v =
     (case r of
        Success txs fmt \<Rightarrow> k < length txs \<and> rawAmount (txs ! k) = v
      | Failure e \<Rightarrow> False)"

section \<open>Properties of the row loop\<close>

lemma makeTransaction_sel [simp]:
  "id_tx (makeTransaction ident dt raw desc) = ident"
  "date (makeTransaction ident dt raw desc) = dt"
  "amount (makeTransaction ident dt raw desc) = toMinorUnits raw"
  "rawAmount (makeTransaction ident dt raw desc) = raw"
  "isCredit (makeTransaction ident dt raw desc) = jsGreater raw (Num False 0)"
  "description (makeTransaction ident dt raw desc) = trim desc"
  "selected (makeTransaction ident dt raw desc) = (\<not> jsGreater raw (Num False 0))"
  by (simp_all add: makeTransaction_def Let_def)

lemma parseRows_all:
  assumes "parseRows body nanoid i ls txs = Inr out"
    and "\<forall>t\<in>set txs. P t"
    and "\<And>j line ident dt raw desc.
           body j line = Inr (dt, raw, desc) \<Longrightarrow> P (makeTransaction ident dt raw desc)"
  shows "\<forall>t\<in>set out. P t"
  using assms(1,2)
proof (induction ls arbitrary: i txs)
  case Nil
  then show ?case by simp
next
  case (Cons line rest)
  show ?case
  proof (cases "body i line")
    case (Inl e)
    with Cons.prems show ?thesis by simp
  next
    case (Inr r)
    obtain dt raw desc where r: "r = (dt, raw, desc)" by (cases r) auto
    let ?txs = "txs @ [makeTransaction (nanoid (length txs)) dt raw desc]"
    from Cons.prems(1) Inr r have "parseRows body nanoid (i + 1) rest ?txs = Inr out"
      by simp
    moreover from Cons.prems(2) assms(3) [of i line dt raw desc] Inr r
    have "\<forall>t\<in>set ?txs. P t" by simp
    ultimately show ?thesis by (rule Cons.IH)
  qed
qed

lemma parsers_rows:
  "parsers fmt nanoid lines =
     finish fmt (parseRows (rowBody fmt) nanoid (firstRow fmt) (drop (firstRow fmt) lines) [])"
  by (cases fmt)
     (simp_all add: parseWellsFargo_def parseChase_def parseBankOfAmerica_def
        parseCapitalOne_def)

lemma finish_Success:
  "finish fmt r = Success txs f \<longleftrightarrow> r = Inr txs \<and> f = fmt"
  by (cases r) (auto simp: finish_def)

lemma finish_Failure:
  "finish fmt r = Failure e \<longleftrightarrow> r = Inl e"
  by (cases r) (auto simp: finish_def)

lemma parseCsv_cases:
  "parseCsv nanoid txt format =
     (if nonBlankLines txt = [] then Failure ''The file is empty.''
      else case chosenFormat txt format of
        None \<Rightarrow> Failure ''Could not detect the CSV format. Please select your bank format manually.''
      | Some fmt \<Rightarrow>
          (case parseRows (rowBody fmt) nanoid (firstRow fmt)
                  (drop (firstRow fmt) (nonBlankLines txt)) [] of
             Inl e \<Rightarrow> Failure e
           | Inr txs \<Rightarrow>
               if txs = [] then Failure ''No valid transactions found in the file.''
               else Success txs fmt))"
  by (simp add: parseCsv_def chosenFormat_def Let_def parsers_rows finish_def
      split: option.splits sum.splits)

lemma parseCsv_SuccessD:
  assumes "parseCsv nanoid txt format = Success txs fmt"
  shows "txs \<noteq> []"
    and "chosenFormat txt format = Some fmt"
    and "parseRows (rowBody fmt) nanoid (firstRow fmt)
           (drop (firstRow fmt) (nonBlankLines txt)) [] = Inr txs"
  using assms
  by (auto simp: parseCsv_cases split: if_splits option.splits sum.splits)

lemma parseCsv_made_rows:
  assumes "parseCsv nanoid txt format = Success txs fmt"
    and "\<And>j line ident dt raw desc.
           rowBody fmt j line = Inr (dt, raw, desc) \<Longrightarrow> P (makeTransaction ident dt raw desc)"
  shows "\<forall>t\<in>set txs. P t"
  by (rule parseRows_all [OF parseCsv_SuccessD(3) [OF assms(1)]]) (simp_all add: assms(2))

lemma parseCsv_made:
  assumes "parseCsv nanoid txt format = Success txs fmt"
    and "\<And>ident dt raw desc. P (makeTransaction ident dt raw desc)"
  shows "\<forall>t\<in>set txs. P t"
  by (rule parseCsv_made_rows [OF assms(1)]) (rule assms(2))

text \<open>
  C6. Every transaction of a successful parse, whatever the format, has
  \<open>isCredit\<close> equal to \<open>rawAmount > 0\<close> and \<open>selected\<close> equal to the negation of
  \<open>isCredit\<close>.
\<close>

theorem parseCsv_credit_selected:
  assumes "parseCsv nanoid txt format = Success txs fmt" and "t \<in> set txs"
  shows "isCredit t = jsGreater (rawAmount t) (Num False 0) \<and> selected t = (\<not> isCredit t)"
proof -
  have "\<forall>t\<in>set txs.
          isCredit t = jsGreater (rawAmount t) (Num False 0) \<and> selected t = (\<not> isCredit t)"
    by (rule parseCsv_made [OF assms(1)]) simp
  with assms(2) show ?thesis by blast
qed

theorem parseCsv_credit_selected_witness:
  "parseCsv (\<lambda>k. ''id'') ''01/15/2024,42.50,*,,Refund'' None
     = Success [\<lparr> id_tx = ''id'', date = Date (Some 1705320000000), amount = Num False 4250,
          rawAmount = Num False (85 / 2), isCredit = True, description = ''Refund'',
          selected = False \<rparr>] WellsFargo
   \<and> jsGreater (Num False (85 / 2)) (Num False 0)"
proof -
  let ?t = "\<lparr> id_tx = ''id'', date = Date (Some 1705320000000), amount = Num False 4250,
          rawAmount = Num False (85 / 2), isCredit = True, description = ''Refund'',
          selected = False \<rparr>"
  have h: "parseCsv (\<lambda>k. ''id'') ''01/15/2024,42.50,*,,Refund'' None = Success [?t] WellsFargo"
    by code_simp
  have "?t \<in> set [?t]" by simp
  from parseCsv_credit_selected [OF h this] h show ?thesis by simp
qed

text \<open>
  C2. \<open>parseCsv\<close> never returns a success with an empty list of transactions: when the
  parser it dispatches to succeeds with no transaction, as on a file with only a header,
  the outcome is the failure \<open>No valid transactions found in the file.\<close>
\<close>

theorem parseCsv_never_empty_success:
  "parseCsv nanoid txt format \<noteq> Success [] fmt
   \<and> (nonBlankLines txt \<noteq> [] \<longrightarrow> chosenFormat txt format = Some f
        \<longrightarrow> parsers f nanoid (nonBlankLines txt) = Success [] g
        \<longrightarrow> parseCsv nanoid txt format = Failure ''No valid transactions found in the file.'')"
proof (intro conjI impI)
  show "parseCsv nanoid txt format \<noteq> Success [] fmt"
  proof
    assume "parseCsv nanoid txt format = Success [] fmt"
    then have "[] \<noteq> ([] :: CsvTransaction list)" by (rule parseCsv_SuccessD(1))
    then show False by simp
  qed
next
  assume "nonBlankLines txt \<noteq> []" and "chosenFormat txt format = Some f"
    and "parsers f nanoid (nonBlankLines txt) = Success [] g"
  then show "parseCsv nanoid txt format = Failure ''No valid transactions found in the file.''"
    by (simp add: parseCsv_cases parsers_rows finish_Success)
qed

theorem parseCsv_never_empty_success_witness:
  "nonBlankLines ''Transaction Date,Post Date,Description,Category,Type,Amount'' \<noteq> []
   \<and> chosenFormat ''Transaction Date,Post Date,Description,Category,Type,Amount'' None = Some Chase
   \<and> parsers Chase (\<lambda>k. ''id'')
        (nonBlankLines ''Transaction Date,Post Date,Description,Category,Type,Amount'')
      = Success [] Chase
   \<and> parseCsv (\<lambda>k. ''id'') ''Transaction Date,Post Date,Description,Category,Type,Amount'' None
      = Failure ''No valid transactions found in the file.''"
proof -
  let ?txt = "''Transaction Date,Post Date,Description,Category,Type,Amount''"
  have a: "nonBlankLines ?txt \<noteq> []" by code_simp
  have b: "chosenFormat ?txt None = Some Chase" by code_simp
  have c: "parsers Chase (\<lambda>k. ''id'') (nonBlankLines ?txt) = Success [] Chase" by code_simp
  from parseCsv_never_empty_success [of "\<lambda>k. ''id''" ?txt None Chase Chase Chase] a b c
  show ?thesis by blast
qed

section \<open>Identifiers\<close>

lemma eraseId_makeTransaction:
  "eraseId (makeTransaction ident dt raw desc) = makeTransaction [] dt raw desc"
  by (simp add: eraseId_def makeTransaction_def Let_def)

lemma parseRows_eraseId:
  assumes "map eraseId txs1 = map eraseId txs2"
  shows "map_sum (\<lambda>e. e) (map eraseId) (parseRows body n1 i ls txs1)
       = map_sum (\<lambda>e. e) (map eraseId) (parseRows body n2 i ls txs2)"
  using assms
proof (induction ls arbitrary: i txs1 txs2)
  case Nil
  then show ?case by simp
next
  case (Cons line rest)
  show ?case
  proof (cases "body i line")
    case (Inl e)
    then show ?thesis by simp
  next
    case (Inr r)
    obtain dt raw desc where r: "r = (dt, raw, desc)" by (cases r) auto
    have "map eraseId (txs1 @ [makeTransaction (n1 (length txs1)) dt raw desc])
        = map eraseId (txs2 @ [makeTransaction (n2 (length txs2)) dt raw desc])"
      using Cons.prems by (simp add: eraseId_makeTransaction)
    from Cons.IH [OF this] Inr r show ?thesis by simp
  qed
qed

lemma eraseIds_finish:
  "eraseIds (finish fmt r) = finish fmt (map_sum (\<lambda>e. e) (map eraseId) r)"
  by (cases r) (simp_all add: eraseIds_def finish_def)

text \<open>
  C8. Two calls of \<open>parseCsv\<close> on the same text and the same optional format give
  outcomes that differ at most in the identifiers of the transactions: the same error
  string, or the same format and lists of transactions that agree in every other field.
\<close>

theorem parseCsv_deterministic_up_to_id:
  "eraseIds (parseCsv nanoid1 txt format) = eraseIds (parseCsv nanoid2 txt format)"
proof -
  have rows: "map_sum (\<lambda>e. e) (map eraseId) (parseRows body nanoid1 i ls [])
            = map_sum (\<lambda>e. e) (map eraseId) (parseRows body nanoid2 i ls [])" for body i ls
    by (rule parseRows_eraseId) simp
  show ?thesis
  proof (cases "nonBlankLines txt = []")
    case True
    then show ?thesis by (simp add: parseCsv_cases)
  next
    case False
    show ?thesis
    proof (cases "chosenFormat txt format")
      case None
      with False show ?thesis by (simp add: parseCsv_cases)
    next
      case (Some fmt)
      let ?r1 = "parseRows (rowBody fmt) nanoid1 (firstRow fmt)
                   (drop (firstRow fmt) (nonBlankLines txt)) []"
      let ?r2 = "parseRows (rowBody fmt) nanoid2 (firstRow fmt)
                   (drop (firstRow fmt) (nonBlankLines txt)) []"
      have eq: "map_sum (\<lambda>e. e) (map eraseId) ?r1 = map_sum (\<lambda>e. e) (map eraseId) ?r2"
        by (rule rows)
      show ?thesis
      proof (cases ?r1)
        case (Inl e)
        with eq have "?r2 = Inl e" by (cases ?r2) simp_all
        with Inl False Some show ?thesis by (simp add: parseCsv_cases)
      next
        case (Inr txs1)
        with eq obtain txs2 where r2: "?r2 = Inr txs2"
          and m: "map eraseId txs1 = map eraseId txs2"
          by (cases ?r2) simp_all
        from m have "txs1 = [] \<longleftrightarrow> txs2 = []" by (metis map_is_Nil_conv)
        with Inr r2 m False Some show ?thesis
          by (simp add: parseCsv_cases eraseIds_def)
      qed
    qed
  qed
qed

section \<open>Failing rows\<close>

lemma parseRows_first_defect:
  assumes "k < length ls"
    and "\<forall>j<k. \<exists>r. body (i + j) (ls ! j) = Inr r"
    and "body (i + k) (ls ! k) = Inl e"
  shows "parseRows body nanoid i ls txs = Inl e"
  using assms
proof (induction ls arbitrary: i k txs)
  case Nil
  then show ?case by simp
next
  case (Cons line rest)
  show ?case
  proof (cases k)
    case 0
    with Cons.prems(3) show ?thesis by simp
  next
    case (Suc k')
    from Cons.prems(2) Suc obtain r where r: "body i line = Inr r" by fastforce
    obtain dt raw desc where rr: "r = (dt, raw, desc)" by (cases r) auto
    have a: "k' < length rest" using Cons.prems(1) Suc by simp
    have b: "\<forall>j<k'. \<exists>r. body (i + 1 + j) (rest ! j) = Inr r"
    proof (intro allI impI)
      fix j assume "j < k'"
      then have "Suc j < k" using Suc by simp
      with Cons.prems(2) have "\<exists>r. body (i + Suc j) ((line # rest) ! Suc j) = Inr r" by blast
      then show "\<exists>r. body (i + 1 + j) (rest ! j) = Inr r" by simp
    qed
    have c: "body (i + 1 + k') (rest ! k') = Inl e" using Cons.prems(3) Suc by simp
    from Cons.IH [OF a b c] r rr show ?thesis by simp
  qed
qed

lemma rowBody_names_row:
  assumes "rowBody fmt i line = Inl e"
  shows "\<exists>rest. e = rowPrefix i @ rest"
  using assms
  by (cases fmt)
     (auto simp: wellsFargoRow_def chaseRow_def bankOfAmericaRow_def capitalOneRow_def
        invalidDate_def invalidAmount_def Let_def split: if_splits option.splits)

section \<open>Detection\<close>

lemma detectCsvFormat_firstMatch:
  "detectCsvFormat txt =
     (case firstNonBlankLine txt of None \<Rightarrow> None | Some l \<Rightarrow> firstMatch detectionOrder l)"
proof (cases "nonBlankLines txt")
  case Nil
  then show ?thesis by (simp add: detectCsvFormat_def firstNonBlankLine_def)
next
  case (Cons line0 rest)
  then show ?thesis
    by (simp add: detectCsvFormat_def firstNonBlankLine_def detectionOrder_def
        hasKeywords_def headerlessShape_def Let_def)
qed

text \<open>
  C4. The result of \<open>detectCsvFormat\<close> depends only on the first non-blank line: two
  texts with the same first non-blank line get the same answer. The answer is that of the
  first rule that holds of that line in the fixed order Chase keywords, Capital One
  keywords, Bank of America keywords, headerless shape (five fields, the third one \<open>*\<close>),
  so a line that satisfies several keyword sets gets the format listed first.
\<close>

theorem detectCsvFormat_first_line_priority:
  "(firstNonBlankLine txt = firstNonBlankLine txt' \<longrightarrow> detectCsvFormat txt = detectCsvFormat txt')
   \<and> detectCsvFormat txt =
       (case firstNonBlankLine txt of None \<Rightarrow> None | Some l \<Rightarrow> firstMatch detectionOrder l)"
  by (simp add: detectCsvFormat_firstMatch)

theorem detectCsvFormat_first_line_priority_witness:
  "firstNonBlankLine (''Transaction Date,Post Date,Posted Date,Category,Type,Debit,Credit''
       @ [CHR 0x0A] @ ''01/15/2024,x'')
     = firstNonBlankLine ([CHR 0x0A] @ ''Transaction Date,Post Date,Posted Date,Category,Type,Debit,Credit''
       @ [CHR 0x0D, CHR 0x0A] @ ''running bal,description'')
   \<and> hasKeywords [''transaction date'', ''posted date'', ''debit'', ''credit'']
        ''Transaction Date,Post Date,Posted Date,Category,Type,Debit,Credit''
   \<and> detectCsvFormat (''Transaction Date,Post Date,Posted Date,Category,Type,Debit,Credit''
       @ [CHR 0x0A] @ ''01/15/2024,x'') = Some Chase
   \<and> detectCsvFormat ([CHR 0x0A] @ ''Transaction Date,Post Date,Posted Date,Category,Type,Debit,Credit''
       @ [CHR 0x0D, CHR 0x0A] @ ''running bal,description'') = Some Chase"
proof -
  let ?h = "''Transaction Date,Post Date,Posted Date,Category,Type,Debit,Credit''"
  let ?t1 = "?h @ [CHR 0x0A] @ ''01/15/2024,x''"
  let ?t2 = "[CHR 0x0A] @ ?h @ [CHR 0x0D, CHR 0x0A] @ ''running bal,description''"
  have a: "firstNonBlankLine ?t1 = Some ?h" by code_simp
  have b: "firstNonBlankLine ?t2 = Some ?h" by code_simp
  have c: "firstMatch detectionOrder ?h = Some Chase" by code_simp
  have d: "hasKeywords [''transaction date'', ''posted date'', ''debit'', ''credit''] ?h"
    by code_simp
  note inst = detectCsvFormat_first_line_priority [of ?t1 ?t2]
  from inst have "detectCsvFormat ?t1 =
      (case firstNonBlankLine ?t1 of None \<Rightarrow> None | Some l \<Rightarrow> firstMatch detectionOrder l)"
    by (rule conjunct2)
  then have e1: "detectCsvFormat ?t1 = Some Chase"
    by (simp only: a c option.case)
  from inst have "firstNonBlankLine ?t1 = firstNonBlankLine ?t2
      \<longrightarrow> detectCsvFormat ?t1 = detectCsvFormat ?t2"
    by (rule conjunct1)
  then have e2: "detectCsvFormat ?t2 = Some Chase"
    by (simp only: a b e1 refl simp_thms)
  from a b d e1 e2 show ?thesis by (simp only: simp_thms)
qed

section \<open>The line splitter\<close>

lemma stripped_trim: "stripped (trim s)"
proof -
  let ?t = "dropWhile isWhiteSpace s"
  let ?u = "dropWhile isWhiteSpace (rev ?t)"
  show ?thesis
  proof (cases "?u = []")
    case True
    then show ?thesis by (simp add: stripped_def trim_def)
  next
    case False
    have t: "?t \<noteq> []"
    proof
      assume "?t = []"
      then have "rev ?t = []" by (simp only: rev.simps)
      then have "?u = []" by (simp only: dropWhile.simps)
      with False show False by blast
    qed
    have "\<not> isWhiteSpace (hd ?u)" using False by (rule hd_dropWhile)
    then have l: "\<not> isWhiteSpace (last (rev ?u))" using False by (simp add: last_rev)
    obtain ws where ws: "rev ?t = ws @ ?u"
      by (metis takeWhile_dropWhile_id)
    then have "?t = rev ?u @ rev ws" by (metis rev_append rev_rev_ident)
    then have "hd (rev ?u) = hd ?t" using False by (metis hd_append2 rev_is_Nil_conv)
    moreover have "\<not> isWhiteSpace (hd ?t)" using t by (rule hd_dropWhile)
    ultimately show ?thesis using l by (simp add: stripped_def trim_def)
  qed
qed

lemma splitCsvLine_loop_subset:
  "set (splitCsvLine_loop line flds current inQuotes) \<subseteq> set flds \<union> {f. stripped f}"
proof (induction line flds current inQuotes rule: splitCsvLine_loop.induct)
  case (1 flds current inQuotes)
  then show ?case by (simp add: stripped_trim)
next
  case (2 c rest flds current inQuotes)
  show ?case
  proof (cases "c = DQUOTE")
    case True
    show ?thesis
    proof (cases rest)
      case Nil
      from "2.IH"(1) [OF True Nil] True Nil show ?thesis by simp
    next
      case (Cons d rest')
      show ?thesis
      proof (cases "inQuotes \<and> d = DQUOTE")
        case yes: True
        from "2.IH"(2) [OF True Cons yes] True Cons yes show ?thesis by simp
      next
        case no: False
        from "2.IH"(3) [OF True Cons no] True Cons no show ?thesis by auto
      qed
    qed
  next
    case False
    show ?thesis
    proof (cases "c = CHR '','' \<and> \<not> inQuotes")
      case True
      from "2.IH"(4) [OF False True] have
        "set (splitCsvLine_loop rest (flds @ [trim current]) [] inQuotes)
           \<subseteq> set flds \<union> {f. stripped f}"
        using stripped_trim [of current] by auto
      with False True show ?thesis by simp
    next
      case no: False
      from "2.IH"(5) [OF False no] False no show ?thesis by auto
    qed
  qed
qed

lemma splitCsvLine_stripped: "\<forall>f\<in>set (splitCsvLine line). stripped f"
  using splitCsvLine_loop_subset [of line "[]" "[]" False] by (auto simp: splitCsvLine_def)

lemma loop_plain:
  "plainField s \<Longrightarrow>
   splitCsvLine_loop (s @ rest) flds current False
     = splitCsvLine_loop rest flds (current @ s) False"
  by (induction s arbitrary: current) (auto simp: plainField_def)

lemma doubleQuotes_Cons:
  "doubleQuotes (c # s) = (if c = DQUOTE then [DQUOTE, DQUOTE] else [c]) @ doubleQuotes s"
  by (simp add: doubleQuotes_def)

lemma loop_quoted_body:
  assumes "rest = [] \<or> hd rest \<noteq> DQUOTE"
  shows "splitCsvLine_loop (doubleQuotes s @ [DQUOTE] @ rest) flds current True
       = splitCsvLine_loop rest flds (current @ s) False"
proof (induction s arbitrary: current)
  case Nil
  from assms show ?case by (cases rest) (simp_all add: doubleQuotes_def)
next
  case (Cons c s)
  show ?case
  proof (cases "c = DQUOTE")
    case True
    then show ?thesis using Cons.IH [of "current @ [DQUOTE]"] by (simp add: doubleQuotes_Cons)
  next
    case False
    from False show ?thesis using Cons.IH [of "current @ [c]"] by (simp add: doubleQuotes_Cons)
  qed
qed

lemma loop_quoted:
  assumes "rest = [] \<or> hd rest \<noteq> DQUOTE"
  shows "splitCsvLine_loop (quoteField s @ rest) flds current False
       = splitCsvLine_loop rest flds (current @ s) False"
proof -
  have "splitCsvLine_loop (quoteField s @ rest) flds current False
      = splitCsvLine_loop (doubleQuotes s @ [DQUOTE] @ rest) flds current True"
    by (cases "doubleQuotes s @ [DQUOTE] @ rest") (simp_all add: quoteField_def)
  then show ?thesis using loop_quoted_body [OF assms] by simp
qed

lemma loop_field:
  assumes "\<not> fst f \<longrightarrow> plainField (snd f)" and "rest = [] \<or> hd rest \<noteq> DQUOTE"
  shows "splitCsvLine_loop (writeField f @ rest) flds current False
       = splitCsvLine_loop rest flds (current @ snd f) False"
  using assms by (simp add: writeField_def loop_plain loop_quoted)

lemma loop_fields:
  assumes "fs \<noteq> []" and "\<forall>f\<in>set fs. \<not> fst f \<longrightarrow> plainField (snd f)"
  shows "splitCsvLine_loop (joinComma (map writeField fs)) flds [] False
       = flds @ map (\<lambda>f. trim (snd f)) fs"
  using assms
proof (induction fs arbitrary: flds)
  case Nil
  then show ?case by simp
next
  case (Cons f fs)
  show ?case
  proof (cases fs)
    case Nil
    have "splitCsvLine_loop (writeField f @ []) flds [] False
        = splitCsvLine_loop [] flds ([] @ snd f) False"
      by (rule loop_field) (use Cons.prems in simp_all)
    with Nil show ?thesis by simp
  next
    case (Cons g gs)
    let ?rest = "[CHR '',''] @ joinComma (map writeField fs)"
    have "splitCsvLine_loop (writeField f @ ?rest) flds [] False
        = splitCsvLine_loop ?rest flds ([] @ snd f) False"
      by (rule loop_field) (use Cons.prems in \<open>simp_all add: DQUOTE_def\<close>)
    also have "\<dots> = splitCsvLine_loop (joinComma (map writeField fs)) (flds @ [trim (snd f)]) [] False"
      by (simp add: DQUOTE_def)
    also have "\<dots> = (flds @ [trim (snd f)]) @ map (\<lambda>f. trim (snd f)) fs"
      by (rule Cons.IH) (use Cons Cons.prems in simp_all)
    finally show ?thesis using Cons by simp
  qed
qed

text \<open>
  C7. \<open>splitCsvLine\<close> splits a line at the commas outside quoted spans. Every field it
  produces has no white space at either end. On a line written from fields, each either
  free of quotes and commas or put between quotes with its quotes doubled, it gives back
  the trimmed fields: a comma inside a quoted span stays in the field, and two consecutive
  quotes inside a quoted span become one quote of the field.
\<close>

theorem splitCsvLine_quoted_fields:
  "(\<forall>f\<in>set (splitCsvLine line). stripped f)
   \<and> (fs \<noteq> [] \<longrightarrow> (\<forall>f\<in>set fs. \<not> fst f \<longrightarrow> plainField (snd f))
        \<longrightarrow> splitCsvLine (joinComma (map writeField fs)) = map (\<lambda>f. trim (snd f)) fs)"
proof (intro conjI impI)
  show "\<forall>f\<in>set (splitCsvLine line). stripped f"
    by (rule splitCsvLine_stripped)
next
  assume "fs \<noteq> []" and "\<forall>f\<in>set fs. \<not> fst f \<longrightarrow> plainField (snd f)"
  then show "splitCsvLine (joinComma (map writeField fs)) = map (\<lambda>f. trim (snd f)) fs"
    using loop_fields [of fs "[]"] by (simp add: splitCsvLine_def)
qed

theorem splitCsvLine_quoted_fields_witness:
  "[(True, ''Smith, '' @ [DQUOTE] @ ''Bob'' @ [DQUOTE]), (False, '' 12.50 '')] \<noteq> []
   \<and> plainField '' 12.50 ''
   \<and> joinComma (map writeField
         [(True, ''Smith, '' @ [DQUOTE] @ ''Bob'' @ [DQUOTE]), (False, '' 12.50 '')])
       = [DQUOTE] @ ''Smith, '' @ [DQUOTE, DQUOTE] @ ''Bob'' @ [DQUOTE, DQUOTE, DQUOTE]
           @ '', 12.50 ''
   \<and> splitCsvLine ([DQUOTE] @ ''Smith, '' @ [DQUOTE, DQUOTE] @ ''Bob''
         @ [DQUOTE, DQUOTE, DQUOTE] @ '', 12.50 '')
       = [''Smith, '' @ [DQUOTE] @ ''Bob'' @ [DQUOTE], ''12.50'']
   \<and> stripped (''Smith, '' @ [DQUOTE] @ ''Bob'' @ [DQUOTE]) \<and> stripped ''12.50''"
proof -
  let ?fs = "[(True, ''Smith, '' @ [DQUOTE] @ ''Bob'' @ [DQUOTE]), (False, '' 12.50 '')]"
  let ?line = "[DQUOTE] @ ''Smith, '' @ [DQUOTE, DQUOTE] @ ''Bob'' @ [DQUOTE, DQUOTE, DQUOTE]
           @ '', 12.50 ''"
  have a: "?fs \<noteq> []" by simp
  have p: "plainField '' 12.50 ''" by code_simp
  then have b: "\<forall>f\<in>set ?fs. \<not> fst f \<longrightarrow> plainField (snd f)" by simp
  have j: "joinComma (map writeField ?fs) = ?line" by code_simp
  have t: "map (\<lambda>f. trim (snd f)) ?fs = [''Smith, '' @ [DQUOTE] @ ''Bob'' @ [DQUOTE], ''12.50'']"
    by code_simp
  note inst = splitCsvLine_quoted_fields [of ?line ?fs]
  from inst a b have "splitCsvLine (joinComma (map writeField ?fs)) = map (\<lambda>f. trim (snd f)) ?fs"
    by blast
  then have s: "splitCsvLine ?line = [''Smith, '' @ [DQUOTE] @ ''Bob'' @ [DQUOTE], ''12.50'']"
    by (simp only: j t)
  from inst have "\<forall>f\<in>set (splitCsvLine ?line). stripped f" by (rule conjunct1)
  then have "\<forall>f\<in>set [''Smith, '' @ [DQUOTE] @ ''Bob'' @ [DQUOTE], ''12.50'']. stripped f"
    by (simp only: s)
  then have "stripped (''Smith, '' @ [DQUOTE] @ ''Bob'' @ [DQUOTE]) \<and> stripped ''12.50''"
    by (simp only: list.set ball_simps bex_simps insert_iff empty_iff simp_thms)
  with a p j s show ?thesis by (simp only: simp_thms)
qed

section \<open>Numbers read from a field\<close>

lemma pow2_pos: "0 < pow2 k"
  by (simp add: pow2_def)

lemma roundHalfEvenDiv_nonneg:
  assumes "0 \<le> a" and "0 < b"
  shows "0 \<le> roundHalfEvenDiv a b"
proof -
  have "0 \<le> a div b" using assms by (simp add: pos_imp_zdiv_nonneg_iff)
  then show ?thesis by (simp add: roundHalfEvenDiv_def Let_def)
qed

lemma roundQuotient_nonneg:
  assumes "0 \<le> a" and "0 < b" and "roundQuotient a b = Some r"
  shows "0 \<le> r"
proof -
  define q where "q = max (floorLog2 a b - 52) (- 1074)"
  define n where "n = (if q < 0 then roundHalfEvenDiv (a * 2 ^ nat (- q)) b
                       else roundHalfEvenDiv a (b * 2 ^ nat q))"
  have eq: "roundQuotient a b =
      (if a = 0 then Some 0
       else if q < 971 then Some (of_int n * pow2 q)
       else if 971 < q \<or> 2 ^ 53 \<le> n then None
       else Some (of_int n * pow2 q))"
    unfolding roundQuotient_def n_def q_def Let_def by (rule refl)
  have "0 \<le> n"
    unfolding n_def using assms(1,2) by (simp add: roundHalfEvenDiv_nonneg)
  then have "0 \<le> (of_int n :: rat) * pow2 q"
    using pow2_pos [of q] by simp
  with assms(3) show ?thesis
    unfolding eq by (auto split: if_splits)
qed

lemma roundBinary64_nonneg:
  assumes "0 \<le> x" and "roundBinary64 x = Some r"
  shows "0 \<le> r"
proof -
  obtain a b where q: "quotient_of x = (a, b)" by (cases "quotient_of x") auto
  then have b: "0 < b" by (rule quotient_of_denom_pos)
  from q have "x = of_int a / of_int b" by (rule quotient_of_div)
  with assms(1) b have "0 \<le> a" by (simp add: zero_le_divide_iff)
  with b assms(2) q show ?thesis
    by (auto simp: roundBinary64_def intro: roundQuotient_nonneg)
qed

lemma wellFormed_toNumber: "0 \<le> x \<Longrightarrow> wellFormed (toNumber neg x)"
  by (auto simp: toNumber_def split: option.splits dest: roundBinary64_nonneg)

lemma digitVal_range: "isDigit c \<Longrightarrow> 0 \<le> digitVal c \<and> digitVal c \<le> 9"
  by (auto simp: isDigit_def digitVal_def)

lemma decimalValue_snoc: "decimalValue (ds @ [c]) = 10 * decimalValue ds + digitVal c"
  by (simp add: decimalValue_def)

lemma decimalValue_range:
  "\<forall>c\<in>set ds. isDigit c \<Longrightarrow> 0 \<le> decimalValue ds \<and> decimalValue ds < 10 ^ length ds"
proof (induction ds rule: rev_induct)
  case Nil
  then show ?case by (simp add: decimalValue_def)
next
  case (snoc c ds)
  then have "0 \<le> decimalValue ds \<and> decimalValue ds < 10 ^ length ds" by simp
  moreover have "0 \<le> digitVal c \<and> digitVal c \<le> 9" using snoc.prems by (simp add: digitVal_range)
  ultimately show ?case by (simp add: decimalValue_snoc)
qed

lemma power10_pos: "0 < power10 k"
  by (simp add: power10_def)

lemma wellFormed_parseFloat: "wellFormed (parseFloat s)"
proof -
  have nn: "0 \<le> (of_int (decimalValue ds) :: rat) * power10 k"
    if "\<forall>c\<in>set ds. isDigit c" for ds k
    using decimalValue_range [OF that] power10_pos [of k] by simp
  have d: "\<forall>c\<in>set (takeWhile isDigit u @ takeWhile isDigit v). isDigit c"
    "\<forall>c\<in>set (takeWhile isDigit u). isDigit c" for u v
    by (auto dest: set_takeWhileD)
  show ?thesis
    by (auto simp: parseFloat_def readUnsigned_def Let_def split: prod.splits
        intro!: wellFormed_toNumber nn d)
qed

lemma parseFloat_blank: "trimStart s = [] \<Longrightarrow> parseFloat s = NaN"
  by (simp add: parseFloat_def readUnsigned_def readSign_def startsWith_def)

lemma trim_Nil_iff: "trim s = [] \<longleftrightarrow> trimStart s = []"
proof
  assume "trimStart s = []"
  then have "dropWhile isWhiteSpace s = []" unfolding trimStart_def .
  then show "trim s = []" unfolding trim_def by (simp only: rev.simps dropWhile.simps)
next
  assume t: "trim s = []"
  show "trimStart s = []"
  proof (rule ccontr)
    assume ne: "trimStart s \<noteq> []"
    then have "\<not> isWhiteSpace (hd (trimStart s))"
      unfolding trimStart_def by (rule hd_dropWhile)
    moreover have "hd (trimStart s) \<in> set (rev (trimStart s))" using ne by simp
    ultimately have "dropWhile isWhiteSpace (rev (trimStart s)) \<noteq> []"
      by (metis dropWhile_eq_Nil_conv)
    with t show False by (simp add: trim_def trimStart_def)
  qed
qed

lemma parseFloat_present: "\<not> isNaN (parseFloat s) \<Longrightarrow> trim s \<noteq> []"
  using parseFloat_blank [of s] by (auto simp: isNaN_def trim_Nil_iff)

section \<open>Debit and credit columns\<close>

lemma debit_sign:
  assumes "wellFormed x" and "\<not> isNaN x"
  shows "\<not> jsGreater (jsNeg (jsAbs x)) (Num False 0)"
    and "jsGreater (Num False 0) (jsNeg (jsAbs x)) \<longleftrightarrow> \<not> isZero x"
  using assms by (cases x; auto simp: isNaN_def signedValue_def)+

lemma credit_sign:
  assumes "wellFormed x" and "\<not> isNaN x"
  shows "\<not> jsGreater (Num False 0) (jsAbs x)"
    and "jsGreater (jsAbs x) (Num False 0) \<longleftrightarrow> \<not> isZero x"
  using assms by (cases x; auto simp: isNaN_def signedValue_def)+

lemma capitalOneRow_amount:
  assumes "splitCsvLine line = flds" and "7 \<le> length flds"
    and "parseDate (flds ! 0) = Some dt"
  shows "capitalOneRow i line =
     (if isNaN (parseFloat (flds ! 5)) \<and> isNaN (parseFloat (flds ! 6))
      then Inl (rowPrefix i @ ''No debit or credit amount found.'')
      else Inr (dt,
             if \<not> isNaN (parseFloat (flds ! 5)) then jsNeg (jsAbs (parseFloat (flds ! 5)))
             else jsAbs (parseFloat (flds ! 6)),
             flds ! 3))"
  using assms parseFloat_present [of "flds ! 5"] parseFloat_present [of "flds ! 6"]
  by (auto simp: capitalOneRow_def Let_def)

text \<open>
  C5 (amended). In the Capital One format a data row reads the debit from column 5 and the
  credit from column 6. When neither parses as a number, the call fails with the
  diagnostic of that row (the first failing one). When the debit parses, the signed amount
  is minus its absolute value, whatever the credit column holds: never positive, and
  negative unless the debit is zero. When only the credit parses, the signed amount is its
  absolute value: never negative, and positive unless the credit is zero.
\<close>

theorem capitalOne_debit_credit:
  assumes "splitCsvLine (lines ! i) = flds" and "7 \<le> length flds"
    and "parseDate (flds ! 0) = Some dt"
    and "1 \<le> i" and "i < length lines"
    and "\<forall>j. 1 \<le> j \<and> j < i \<longrightarrow> (\<exists>r. capitalOneRow j (lines ! j) = Inr r)"
  shows "(isNaN (parseFloat (flds ! 5)) \<and> isNaN (parseFloat (flds ! 6)) \<longrightarrow>
            parseCapitalOne nanoid lines
              = Failure (''Row '' @ showNat (i + 1) @ '': No debit or credit amount found.''))
       \<and> (\<not> isNaN (parseFloat (flds ! 5)) \<longrightarrow>
            capitalOneRow i (lines ! i)
              = Inr (dt, jsNeg (jsAbs (parseFloat (flds ! 5))), flds ! 3)
            \<and> \<not> jsGreater (jsNeg (jsAbs (parseFloat (flds ! 5)))) (Num False 0)
            \<and> (jsGreater (Num False 0) (jsNeg (jsAbs (parseFloat (flds ! 5))))
                 \<longleftrightarrow> \<not> isZero (parseFloat (flds ! 5))))
       \<and> (isNaN (parseFloat (flds ! 5)) \<and> \<not> isNaN (parseFloat (flds ! 6)) \<longrightarrow>
            capitalOneRow i (lines ! i) = Inr (dt, jsAbs (parseFloat (flds ! 6)), flds ! 3)
            \<and> \<not> jsGreater (Num False 0) (jsAbs (parseFloat (flds ! 6)))
            \<and> (jsGreater (jsAbs (parseFloat (flds ! 6))) (Num False 0)
                 \<longleftrightarrow> \<not> isZero (parseFloat (flds ! 6))))"
proof (intro conjI impI)
  note row = capitalOneRow_amount [OF assms(1-3), of i]
  {
    assume n: "isNaN (parseFloat (flds ! 5)) \<and> isNaN (parseFloat (flds ! 6))"
    let ?e = "rowPrefix i @ ''No debit or credit amount found.''"
    let ?ls = "drop 1 lines"
    have a: "i - 1 < length ?ls" using assms(4,5) by simp
    have b: "\<forall>j<i - 1. \<exists>r. capitalOneRow (1 + j) (?ls ! j) = Inr r"
    proof (intro allI impI)
      fix j assume "j < i - 1"
      then have "1 \<le> 1 + j \<and> 1 + j < i" by simp
      with assms(6) have "\<exists>r. capitalOneRow (1 + j) (lines ! (1 + j)) = Inr r" by blast
      moreover have "?ls ! j = lines ! (1 + j)" using assms(4,5) by simp
      ultimately show "\<exists>r. capitalOneRow (1 + j) (?ls ! j) = Inr r" by simp
    qed
    have "?ls ! (i - 1) = lines ! i" using assms(4,5) by simp
    then have c: "capitalOneRow (1 + (i - 1)) (?ls ! (i - 1)) = Inl ?e"
      using row n assms(4) by simp
    have "parseRows capitalOneRow nanoid 1 ?ls [] = Inl ?e"
      by (rule parseRows_first_defect [OF a b c])
    then show "parseCapitalOne nanoid lines
        = Failure (''Row '' @ showNat (i + 1) @ '': No debit or credit amount found.'')"
      by (simp add: parseCapitalOne_def finish_def rowPrefix_def)
  }
  {
    assume d: "\<not> isNaN (parseFloat (flds ! 5))"
    from row d show "capitalOneRow i (lines ! i)
        = Inr (dt, jsNeg (jsAbs (parseFloat (flds ! 5))), flds ! 3)" by simp
    from d show "\<not> jsGreater (jsNeg (jsAbs (parseFloat (flds ! 5)))) (Num False 0)"
      by (rule debit_sign(1) [OF wellFormed_parseFloat])
    from d show "jsGreater (Num False 0) (jsNeg (jsAbs (parseFloat (flds ! 5))))
        \<longleftrightarrow> \<not> isZero (parseFloat (flds ! 5))"
      by (rule debit_sign(2) [OF wellFormed_parseFloat])
  }
  {
    assume c: "isNaN (parseFloat (flds ! 5)) \<and> \<not> isNaN (parseFloat (flds ! 6))"
    from row c show "capitalOneRow i (lines ! i)
        = Inr (dt, jsAbs (parseFloat (flds ! 6)), flds ! 3)" by simp
    from c show "\<not> jsGreater (Num False 0) (jsAbs (parseFloat (flds ! 6)))"
      using credit_sign(1) [OF wellFormed_parseFloat] by blast
    from c show "jsGreater (jsAbs (parseFloat (flds ! 6))) (Num False 0)
        \<longleftrightarrow> \<not> isZero (parseFloat (flds ! 6))"
      using credit_sign(2) [OF wellFormed_parseFloat] by blast
  }
qed

theorem capitalOne_debit_credit_witness:
  "parseCapitalOne sampleIds
     [''Transaction Date,Posted Date,Card No.,Description,Category,Debit,Credit'',
      ''01/16/2024,01/17/2024,1234,Refund,Food,,5.25'',
      ''01/17/2024,01/18/2024,1234,Shop,Food,12.00,3.00'',
      ''01/18/2024,01/19/2024,1234,Void,Food,,'']
     = Failure ''Row 4: No debit or credit amount found.''
   \<and> capitalOneRow 2 ''01/17/2024,01/18/2024,1234,Shop,Food,12.00,3.00''
     = Inr (Date (Some 1705492800000), Num True 12, ''Shop'')
   \<and> jsGreater (Num False 0) (Num True 12)
   \<and> capitalOneRow 1 ''01/16/2024,01/17/2024,1234,Refund,Food,,5.25''
     = Inr (Date (Some 1705406400000), Num False (21 / 4), ''Refund'')
   \<and> jsGreater (Num False (21 / 4)) (Num False 0)"
proof -
  let ?h = "''Transaction Date,Posted Date,Card No.,Description,Category,Debit,Credit''"
  let ?r1 = "''01/16/2024,01/17/2024,1234,Refund,Food,,5.25''"
  let ?r2 = "''01/17/2024,01/18/2024,1234,Shop,Food,12.00,3.00''"
  let ?r3 = "''01/18/2024,01/19/2024,1234,Void,Food,,''"
  let ?lines = "[?h, ?r1, ?r2, ?r3]"
  let ?f1 = "[''01/16/2024'', ''01/17/2024'', ''1234'', ''Refund'', ''Food'', '''', ''5.25'']"
  let ?f2 = "[''01/17/2024'', ''01/18/2024'', ''1234'', ''Shop'', ''Food'', ''12.00'', ''3.00'']"
  let ?f3 = "[''01/18/2024'', ''01/19/2024'', ''1234'', ''Void'', ''Food'', '''', '''']"
  have s1: "splitCsvLine (?lines ! 1) = ?f1" by code_simp
  have s2: "splitCsvLine (?lines ! 2) = ?f2" by code_simp
  have s3: "splitCsvLine (?lines ! 3) = ?f3" by code_simp
  have d1: "parseDate (?f1 ! 0) = Some (Date (Some 1705406400000))" by code_simp
  have d2: "parseDate (?f2 ! 0) = Some (Date (Some 1705492800000))" by code_simp
  have d3: "parseDate (?f3 ! 0) = Some (Date (Some 1705579200000))" by code_simp
  have p: "parseFloat '''' = NaN" "parseFloat ''5.25'' = Num False (21 / 4)"
    "parseFloat ''12.00'' = Num False 12" "parseFloat ''3.00'' = Num False 3"
    by code_simp+
  have ok1: "capitalOneRow 1 (?lines ! 1) = Inr (Date (Some 1705406400000), Num False (21 / 4), ''Refund'')"
    by code_simp
  have ok2: "capitalOneRow 2 (?lines ! 2) = Inr (Date (Some 1705492800000), Num True 12, ''Shop'')"
    by code_simp
  have q1: "\<forall>j. 1 \<le> j \<and> j < (1::nat) \<longrightarrow> (\<exists>r. capitalOneRow j (?lines ! j) = Inr r)"
    by simp
  have q2: "\<forall>j. 1 \<le> j \<and> j < (2::nat) \<longrightarrow> (\<exists>r. capitalOneRow j (?lines ! j) = Inr r)"
  proof (intro allI impI)
    fix j :: nat assume "1 \<le> j \<and> j < 2"
    then have "j = 1" by simp
    with ok1 show "\<exists>r. capitalOneRow j (?lines ! j) = Inr r" by blast
  qed
  have q3: "\<forall>j. 1 \<le> j \<and> j < (3::nat) \<longrightarrow> (\<exists>r. capitalOneRow j (?lines ! j) = Inr r)"
  proof (intro allI impI)
    fix j :: nat assume "1 \<le> j \<and> j < 3"
    then have "j = 1 \<or> j = 2" by auto
    with ok1 ok2 show "\<exists>r. capitalOneRow j (?lines ! j) = Inr r" by blast
  qed
  have len: "7 \<le> length ?f1" "7 \<le> length ?f2" "7 \<le> length ?f3" by simp_all
  have i: "(1::nat) \<le> 1" "(1::nat) \<le> 2" "(1::nat) \<le> 3"
    "1 < length ?lines" "2 < length ?lines" "3 < length ?lines" by simp_all
  from capitalOne_debit_credit [OF s3 len(3) d3 i(3) i(6) q3, of sampleIds] p
  have a: "parseCapitalOne sampleIds ?lines = Failure (''Row '' @ showNat (3 + 1) @ '': No debit or credit amount found.'')"
    by (simp add: isNaN_def)
  have sn: "''Row '' @ showNat (3 + 1) @ '': No debit or credit amount found.''
      = ''Row 4: No debit or credit amount found.''" by code_simp
  from capitalOne_debit_credit [OF s2 len(2) d2 i(2) i(5) q2, of sampleIds] p
  have b: "capitalOneRow 2 ?r2 = Inr (Date (Some 1705492800000), Num True 12, ''Shop'')
      \<and> jsGreater (Num False 0) (Num True 12)"
    by (simp add: isNaN_def)
  from capitalOne_debit_credit [OF s1 len(1) d1 i(1) i(4) q1, of sampleIds] p
  have c: "capitalOneRow 1 ?r1 = Inr (Date (Some 1705406400000), Num False (21 / 4), ''Refund'')
      \<and> jsGreater (Num False (21 / 4)) (Num False 0)"
    by (simp add: isNaN_def)
  from a b c show ?thesis unfolding sn by blast
qed

text \<open>
  C5 as stated fails on a zero amount: a row whose only amount is the credit \<open>0.00\<close> gets
  the signed amount 0, which is not positive, and a row whose debit is \<open>0.00\<close> gets the
  negative zero, which is not below zero.
\<close>

theorem capitalOne_zero_counterexample:
  "capitalOneRow 1 ''01/16/2024,01/17/2024,1234,Refund,Food,,0.00''
     = Inr (Date (Some 1705406400000), Num False 0, ''Refund'')
   \<and> \<not> jsGreater (Num False 0) (Num False 0)
   \<and> capitalOneRow 1 ''01/16/2024,01/17/2024,1234,Shop,Food,0.00,''
     = Inr (Date (Some 1705406400000), Num True 0, ''Shop'')
   \<and> \<not> jsGreater (Num False 0) (Num True 0)"
proof -
  have a: "capitalOneRow 1 ''01/16/2024,01/17/2024,1234,Refund,Food,,0.00''
     = Inr (Date (Some 1705406400000), Num False 0, ''Refund'')" by code_simp
  have b: "capitalOneRow 1 ''01/16/2024,01/17/2024,1234,Shop,Food,0.00,''
     = Inr (Date (Some 1705406400000), Num True 0, ''Shop'')" by code_simp
  have c: "\<not> jsGreater (Num False 0) (Num False 0)" "\<not> jsGreater (Num False 0) (Num True 0)"
    by (simp_all add: signedValue_def)
  from a b c show ?thesis by blast
qed

section \<open>Minor units\<close>

lemma roundHalfUp_nearest: "\<bar>of_int (roundHalfUp x) - x\<bar> \<le> 1 / 2"
  unfolding roundHalfUp_def by linarith

lemma wellFormed_rowBody:
  assumes "rowBody fmt i line = Inr (dt, raw, desc)"
  shows "wellFormed raw"
proof -
  have w: "wellFormed (jsNeg (jsAbs x))" "wellFormed (jsAbs x)" if "wellFormed x" for x
    using that by (cases x; simp)+
  from assms show ?thesis
    by (cases fmt)
       (auto simp: wellsFargoRow_def chaseRow_def bankOfAmericaRow_def capitalOneRow_def
          Let_def wellFormed_parseFloat w split: if_splits option.splits)
qed

lemma toMinorUnits_Num:
  assumes "0 \<le> m"
  shows "toMinorUnits (Num s m) =
     (case roundBinary64 (m * 100) of
        None \<Rightarrow> Infinity False
      | Some p \<Rightarrow> Num False (of_int (roundHalfUp p)))"
proof (cases "roundBinary64 (m * 100)")
  case None
  then show ?thesis by (simp add: toMinorUnits_def toNumber_def)
next
  case (Some p)
  from assms have "0 \<le> m * 100" by simp
  then have "0 \<le> p" using Some by (rule roundBinary64_nonneg)
  then have "0 \<le> \<lfloor>p + 1 / 2\<rfloor>" by simp
  then have "jsRound (Num False p) = Num False (of_int \<lfloor>p + 1 / 2\<rfloor>)"
    by (auto simp: Let_def)
  with Some show ?thesis by (simp add: toMinorUnits_def toNumber_def roundHalfUp_def)
qed

text \<open>
  C1 (amended). For every transaction of a successful parse, \<open>amount\<close> is
  \<open>Math.round(Math.abs(rawAmount) * 100)\<close> in binary64 arithmetic: the product of the
  magnitude of \<open>rawAmount\<close> and 100 is rounded to binary64, and that product \<open>p\<close> is
  rounded to the nearest integer with halves going up, so the amount is within one half
  of \<open>p\<close> and is never a truncation of it; when the product overflows the amount is
  infinite. When the exact product is itself a binary64 value, the amount is the exact
  product rounded half up.
\<close>

theorem parseCsv_amount_rounding:
  assumes "parseCsv nanoid txt format = Success txs fmt" and "t \<in> set txs"
  shows "amount t = jsRound (jsMul (jsAbs (rawAmount t)) (Num False 100))
       \<and> (\<forall>s m. rawAmount t = Num s m \<longrightarrow>
            (case roundBinary64 (m * 100) of
               None \<Rightarrow> amount t = Infinity False
             | Some p \<Rightarrow> amount t = Num False (of_int (roundHalfUp p))
                          \<and> \<bar>of_int (roundHalfUp p) - p\<bar> \<le> 1 / 2))
       \<and> (\<forall>s m. rawAmount t = Num s m \<longrightarrow> roundBinary64 (m * 100) = Some (m * 100) \<longrightarrow>
            amount t = Num False (of_int (roundHalfUp (m * 100))))"
proof -
  have "\<forall>t\<in>set txs. amount t = toMinorUnits (rawAmount t) \<and> wellFormed (rawAmount t)"
    by (rule parseCsv_made_rows [OF assms(1)]) (simp add: wellFormed_rowBody)
  with assms(2) have a: "amount t = toMinorUnits (rawAmount t)" and w: "wellFormed (rawAmount t)"
    by blast+
  have b: "amount t = (case roundBinary64 (m * 100) of
        None \<Rightarrow> Infinity False
      | Some p \<Rightarrow> Num False (of_int (roundHalfUp p)))" if "rawAmount t = Num s m" for s m
    using a w that by (simp add: toMinorUnits_Num)
  show ?thesis
  proof (intro conjI allI impI)
    show "amount t = jsRound (jsMul (jsAbs (rawAmount t)) (Num False 100))"
      using a by (simp add: toMinorUnits_def)
  next
    fix s m assume "rawAmount t = Num s m"
    from b [OF this] show "case roundBinary64 (m * 100) of
               None \<Rightarrow> amount t = Infinity False
             | Some p \<Rightarrow> amount t = Num False (of_int (roundHalfUp p))
                          \<and> \<bar>of_int (roundHalfUp p) - p\<bar> \<le> 1 / 2"
      using roundHalfUp_nearest by (auto split: option.splits)
  next
    fix s m assume "rawAmount t = Num s m" and "roundBinary64 (m * 100) = Some (m * 100)"
    with b [of s m] show "amount t = Num False (of_int (roundHalfUp (m * 100)))" by simp
  qed
qed

theorem parseCsv_amount_rounding_witness:
  "parseCsv sampleIds ''01/15/2024,-19.995,*,,Coffee Shop'' None
     = Success [\<lparr> id_tx = ''tx0'', date = Date (Some 1705320000000), amount = Num False 2000,
          rawAmount = Num True (5628092159329567 / 281474976710656), isCredit = False,
          description = ''Coffee Shop'', selected = True \<rparr>] WellsFargo
   \<and> roundBinary64 (5628092159329567 / 281474976710656 * 100) = Some (3999 / 2)
   \<and> roundHalfUp (3999 / 2) = 2000"
proof -
  let ?t = "\<lparr> id_tx = ''tx0'', date = Date (Some 1705320000000), amount = Num False 2000,
          rawAmount = Num True (5628092159329567 / 281474976710656), isCredit = False,
          description = ''Coffee Shop'', selected = True \<rparr>"
  have h: "parseCsv sampleIds ''01/15/2024,-19.995,*,,Coffee Shop'' None = Success [?t] WellsFargo"
    by code_simp
  have r: "roundBinary64 (5628092159329567 / 281474976710656 * 100) = Some (3999 / 2)"
    by code_simp
  have u: "roundHalfUp (3999 / 2) = 2000" by code_simp
  have "?t \<in> set [?t]" by simp
  from parseCsv_amount_rounding [OF h this] h r u show ?thesis by simp
qed

text \<open>
  C1 as stated fails. The field \<open>-1.115\<close> is read as the binary64 value just below 1.115;
  one hundred times that value is below 111.5 and rounds to 111, but the binary64 product
  is 111.5 and the amount is 112. The field \<open>-1.005\<close> is a source decimal whose hundredfold
  is the half 100.5, which rounds up to 101, but the amount is 100.
\<close>

theorem parseCsv_amount_counterexample:
  "parseCsv sampleIds ''01/15/2024,-1.115,*,,Coffee Shop'' None
     = Success [\<lparr> id_tx = ''tx0'', date = Date (Some 1705320000000), amount = Num False 112,
          rawAmount = Num True (5021513584518103 / 4503599627370496), isCredit = False,
          description = ''Coffee Shop'', selected = True \<rparr>] WellsFargo
   \<and> roundHalfUp (5021513584518103 / 4503599627370496 * 100) = 111
   \<and> parseCsv sampleIds ''01/15/2024,-1.005,*,,Coffee Shop'' None
     = Success [\<lparr> id_tx = ''tx0'', date = Date (Some 1705320000000), amount = Num False 100,
          rawAmount = Num True (1131529406376837 / 1125899906842624), isCredit = False,
          description = ''Coffee Shop'', selected = True \<rparr>] WellsFargo
   \<and> roundHalfUp (1005 / 1000 * 100) = 101"
proof -
  have a: "parseCsv sampleIds ''01/15/2024,-1.115,*,,Coffee Shop'' None
     = Success [\<lparr> id_tx = ''tx0'', date = Date (Some 1705320000000), amount = Num False 112,
          rawAmount = Num True (5021513584518103 / 4503599627370496), isCredit = False,
          description = ''Coffee Shop'', selected = True \<rparr>] WellsFargo"
    by code_simp
  have b: "roundHalfUp (5021513584518103 / 4503599627370496 * 100) = 111" by code_simp
  have c: "parseCsv sampleIds ''01/15/2024,-1.005,*,,Coffee Shop'' None
     = Success [\<lparr> id_tx = ''tx0'', date = Date (Some 1705320000000), amount = Num False 100,
          rawAmount = Num True (1131529406376837 / 1125899906842624), isCredit = False,
          description = ''Coffee Shop'', selected = True \<rparr>] WellsFargo"
    by code_simp
  have d: "roundHalfUp (1005 / 1000 * 100) = 101" by code_simp
  from a b c d show ?thesis by blast
qed

section \<open>Dates\<close>

lemma digitsUpTo_sound:
  assumes "digitsUpTo n s = (ds, rest)"
  shows "s = ds @ rest" and "digitString ds" and "length ds \<le> n"
proof -
  from assms have ds: "ds = takeWhile isDigit (take n s)" and rest: "rest = drop (length ds) s"
    by (auto simp: digitsUpTo_def Let_def)
  obtain u where u: "take n s = ds @ u"
    using ds by (metis takeWhile_dropWhile_id)
  then have "take (length ds) s = ds"
    by (metis append_eq_conv_conj take_take min.cobounded2 length_take min_def)
  then show "s = ds @ rest" using rest by (metis append_take_drop_id)
  show "digitString ds" unfolding digitString_def ds
    by (simp add: list_all_iff) (metis set_takeWhileD)
  have "length ds \<le> length (take n s)" unfolding ds by (rule length_takeWhile_le)
  then show "length ds \<le> n" by simp
qed

lemma digitsUpTo_complete:
  assumes "digitString ds" and "length ds \<le> n" and "rest = [] \<or> \<not> isDigit (hd rest)"
  shows "digitsUpTo n (ds @ rest) = (ds, rest)"
proof -
  have "take n (ds @ rest) = ds @ take (n - length ds) rest" using assms(2) by simp
  moreover have "takeWhile isDigit (ds @ take (n - length ds) rest) = ds"
  proof (cases "take (n - length ds) rest")
    case Nil
    have "takeWhile isDigit ds = ds"
      using assms(1) by (simp add: digitString_def list_all_iff)
    then show ?thesis unfolding Nil by simp
  next
    case (Cons c cs)
    then have "rest \<noteq> []" by auto
    then have "hd (take (n - length ds) rest) = hd rest" using Cons
      by (metis hd_take take_eq_Nil list.distinct(1) neq0_conv)
    then have "\<not> isDigit c" using assms(3) Cons \<open>rest \<noteq> []\<close> by simp
    with assms(1) Cons show ?thesis
      by (simp add: digitString_def list_all_iff)
  qed
  ultimately show ?thesis by (simp add: digitsUpTo_def Let_def)
qed

lemma slash_not_digit: "\<not> isDigit CHR ''/''"
  by (simp add: isDigit_def)

lemma matchYear_iff:
  "matchYear m d s = Some r \<longleftrightarrow> r = (m, d, s) \<and> digitString s \<and> length s = 4"
proof
  assume a: "matchYear m d s = Some r"
  obtain y rest where q: "digitsUpTo 4 s = (y, rest)" by (cases "digitsUpTo 4 s") auto
  with a have "length y = 4" "rest = []" "r = (m, d, y)"
    by (auto simp: matchYear_def split: if_splits)
  with digitsUpTo_sound [OF q] show "r = (m, d, s) \<and> digitString s \<and> length s = 4" by simp
next
  assume a: "r = (m, d, s) \<and> digitString s \<and> length s = 4"
  then have "digitsUpTo 4 (s @ []) = (s, [])" by (intro digitsUpTo_complete) simp_all
  with a show "matchYear m d s = Some r" by (simp add: matchYear_def)
qed

lemma matchDay_iff:
  "matchDay m s = Some r \<longleftrightarrow>
     (\<exists>d y. s = d @ ''/'' @ y \<and> r = (m, d, y) \<and> digitString d
        \<and> (length d = 1 \<or> length d = 2) \<and> digitString y \<and> length y = 4)"
proof
  assume a: "matchDay m s = Some r"
  obtain d rest where q: "digitsUpTo 2 s = (d, rest)" by (cases "digitsUpTo 2 s") auto
  with a obtain y where "d \<noteq> []" "rest = CHR ''/'' # y" "matchYear m d y = Some r"
    by (auto simp: matchDay_def split: if_splits list.splits)
  moreover from digitsUpTo_sound [OF q] have "s = d @ rest" "digitString d" "length d \<le> 2"
    by simp_all
  moreover have "length d = 1 \<or> length d = 2"
  proof -
    have "0 < length d" using \<open>d \<noteq> []\<close> by simp
    with \<open>length d \<le> 2\<close> show ?thesis by arith
  qed
  ultimately show "\<exists>d y. s = d @ ''/'' @ y \<and> r = (m, d, y) \<and> digitString d
        \<and> (length d = 1 \<or> length d = 2) \<and> digitString y \<and> length y = 4"
    by (auto simp: matchYear_iff)
next
  assume "\<exists>d y. s = d @ ''/'' @ y \<and> r = (m, d, y) \<and> digitString d
        \<and> (length d = 1 \<or> length d = 2) \<and> digitString y \<and> length y = 4"
  then obtain d y where s: "s = d @ (CHR ''/'' # y)" and r: "r = (m, d, y)"
    and d: "digitString d" "length d = 1 \<or> length d = 2" and y: "digitString y" "length y = 4"
    by auto
  have "digitsUpTo 2 (d @ (CHR ''/'' # y)) = (d, CHR ''/'' # y)"
    using d by (intro digitsUpTo_complete) (auto simp: slash_not_digit)
  moreover have "d \<noteq> []" using d(2) by auto
  ultimately show "matchDay m s = Some r"
    using s r y by (simp add: matchDay_def matchYear_iff)
qed

lemma matchDate_iff:
  "matchDate s = Some r \<longleftrightarrow>
     (\<exists>m d y. s = m @ ''/'' @ d @ ''/'' @ y \<and> r = (m, d, y)
        \<and> digitString m \<and> (length m = 1 \<or> length m = 2)
        \<and> digitString d \<and> (length d = 1 \<or> length d = 2)
        \<and> digitString y \<and> length y = 4)"
proof
  assume a: "matchDate s = Some r"
  obtain m rest where q: "digitsUpTo 2 s = (m, rest)" by (cases "digitsUpTo 2 s") auto
  with a obtain t where "m \<noteq> []" "rest = CHR ''/'' # t" "matchDay m t = Some r"
    by (auto simp: matchDate_def split: if_splits list.splits)
  moreover from digitsUpTo_sound [OF q] have "s = m @ rest" "digitString m" "length m \<le> 2"
    by simp_all
  moreover have "length m = 1 \<or> length m = 2"
  proof -
    have "0 < length m" using \<open>m \<noteq> []\<close> by simp
    with \<open>length m \<le> 2\<close> show ?thesis by arith
  qed
  ultimately show "\<exists>m d y. s = m @ ''/'' @ d @ ''/'' @ y \<and> r = (m, d, y)
        \<and> digitString m \<and> (length m = 1 \<or> length m = 2)
        \<and> digitString d \<and> (length d = 1 \<or> length d = 2)
        \<and> digitString y \<and> length y = 4"
    by (auto simp: matchDay_iff)
next
  assume "\<exists>m d y. s = m @ ''/'' @ d @ ''/'' @ y \<and> r = (m, d, y)
        \<and> digitString m \<and> (length m = 1 \<or> length m = 2)
        \<and> digitString d \<and> (length d = 1 \<or> length d = 2)
        \<and> digitString y \<and> length y = 4"
  then obtain m d y where s: "s = m @ (CHR ''/'' # (d @ ''/'' @ y))" and r: "r = (m, d, y)"
    and m: "digitString m" "length m = 1 \<or> length m = 2"
    and d: "digitString d" "length d = 1 \<or> length d = 2"
    and y: "digitString y" "length y = 4"
    by auto
  have "digitsUpTo 2 (m @ (CHR ''/'' # (d @ ''/'' @ y))) = (m, CHR ''/'' # (d @ ''/'' @ y))"
    using m by (intro digitsUpTo_complete) (auto simp: slash_not_digit)
  moreover have "m \<noteq> []" using m(2) by auto
  moreover have "matchDay m (d @ ''/'' @ y) = Some r"
    unfolding matchDay_iff using r d y by blast
  ultimately show "matchDate s = Some r"
    using s by (simp add: matchDate_def)
qed

lemma matchesDatePattern_iff: "matchesDatePattern s \<longleftrightarrow> matchDate s \<noteq> None"
proof -
  have "matchDate s \<noteq> None \<longleftrightarrow> (\<exists>r. matchDate s = Some r)" by auto
  then show ?thesis unfolding matchesDatePattern_def matchDate_iff by blast
qed

lemma div_step:
  fixes x k :: int
  assumes "0 < k"
  shows "(x + 1) div k = (if (x + 1) mod k = 0 then x div k + 1 else x div k)"
proof -
  define q where "q = x div k"
  define r where "r = x mod k"
  have x: "x = k * q + r" unfolding q_def r_def by simp
  have r: "0 \<le> r" "r < k" unfolding r_def using assms by simp_all
  show ?thesis
  proof (cases "r + 1 = k")
    case True
    then have e: "x + 1 = k * (q + 1) + 0" using x by (simp add: algebra_simps)
    have "(x + 1) div k = q + 1" using e by (rule int_div_pos_eq) (use assms in simp_all)
    moreover have "(x + 1) mod k = 0" using e by (rule int_mod_pos_eq) (use assms in simp_all)
    ultimately show ?thesis by (simp add: q_def)
  next
    case False
    then have lt: "r + 1 < k" using r by simp
    have e: "x + 1 = k * q + (r + 1)" using x by simp
    have "(x + 1) div k = q" using e by (rule int_div_pos_eq) (use r lt in simp_all)
    moreover have "(x + 1) mod k = r + 1" using e by (rule int_mod_pos_eq) (use r lt in simp_all)
    ultimately show ?thesis using r by (simp add: q_def)
  qed
qed

lemma mod_shift:
  fixes y k c :: int
  shows "(y - k * c) mod k = 0 \<longleftrightarrow> y mod k = 0"
proof -
  have "(y - k * c) mod k = y mod k"
    by (metis mod_mult_self1 diff_conv_add_uminus mult_minus_right mult.commute)
  then show ?thesis by simp
qed

lemma leap_nested:
  "(y::int) mod 100 = 0 \<Longrightarrow> y mod 4 = 0"
  "(y::int) mod 400 = 0 \<Longrightarrow> y mod 100 = 0"
proof -
  have a: "(4::int) dvd 100" "(100::int) dvd 400" by simp_all
  show "y mod 100 = 0 \<Longrightarrow> y mod 4 = 0"
    using a(1) by (meson dvd_trans mod_eq_0_iff_dvd)
  show "y mod 400 = 0 \<Longrightarrow> y mod 100 = 0"
    using a(2) by (meson dvd_trans mod_eq_0_iff_dvd)
qed

lemma DayFromYear_Suc:
  "DayFromYear (y + 1) = DayFromYear y + (if InLeapYear y then 366 else 365)"
proof -
  have s4: "(y + 1 - 1969) div 4 = (if y mod 4 = 0 then (y - 1969) div 4 + 1 else (y - 1969) div 4)"
    using div_step [of 4 "y - 1969"] mod_shift [of y 4 492] by (simp add: algebra_simps)
  have s100: "(y + 1 - 1901) div 100
      = (if y mod 100 = 0 then (y - 1901) div 100 + 1 else (y - 1901) div 100)"
    using div_step [of 100 "y - 1901"] mod_shift [of y 100 19] by (simp add: algebra_simps)
  have s400: "(y + 1 - 1601) div 400
      = (if y mod 400 = 0 then (y - 1601) div 400 + 1 else (y - 1601) div 400)"
    using div_step [of 400 "y - 1601"] mod_shift [of y 400 4] by (simp add: algebra_simps)
  show ?thesis
    unfolding DayFromYear_def InLeapYear_def s4 s100 s400
    using leap_nested [of y] by auto
qed

lemma DayFromYear_bounds:
  assumes "0 \<le> y" and "y \<le> 10100"
  shows "- 1000000 \<le> DayFromYear y" and "DayFromYear y \<le> 4000000"
proof -
  have a: "(- 1969) div 4 \<le> (y - 1969) div 4" "(y - 1969) div 4 \<le> (10100 - 1969) div 4"
    using assms by (simp_all add: zdiv_mono1)
  have b: "(- 1901) div 100 \<le> (y - 1901) div 100" "(y - 1901) div 100 \<le> (10100 - 1901) div 100"
    using assms by (simp_all add: zdiv_mono1)
  have c: "(- 1601) div 400 \<le> (y - 1601) div 400" "(y - 1601) div 400 \<le> (10100 - 1601) div 400"
    using assms by (simp_all add: zdiv_mono1)
  from a b c assms show "- 1000000 \<le> DayFromYear y" and "DayFromYear y \<le> 4000000"
    unfolding DayFromYear_def by simp_all
qed

lemma monthStart_nth:
  assumes "0 \<le> mn" and "mn < 12"
  shows "0 \<le> monthStart y ! nat mn" and "monthStart y ! nat mn \<le> 335"
proof -
  have "nat mn < 12" using assms by simp
  then have "monthStart y ! nat mn \<in> set (monthStart y)"
    by (simp add: monthStart_def)
  then show "0 \<le> monthStart y ! nat mn" and "monthStart y ! nat mn \<le> 335"
    by (auto simp: monthStart_def split: if_splits)
qed

lemma digit_not_space: "isDigit c \<Longrightarrow> \<not> isWhiteSpace c"
  by (auto simp: isDigit_def isWhiteSpace_def)

lemma digit_not_sign: "isDigit c \<Longrightarrow> c \<noteq> CHR ''-'' \<and> c \<noteq> CHR ''+''"
  by (auto simp: isDigit_def)

lemma parseInt_digits:
  assumes "digitString ds" and "ds \<noteq> []"
  shows "parseInt ds = Some (decimalValue ds)"
proof -
  obtain c cs where ds: "ds = c # cs" using assms(2) by (cases ds) auto
  with assms(1) have c: "isDigit c" by (simp add: digitString_def)
  have t: "trimStart ds = ds" using c ds by (simp add: trimStart_def digit_not_space)
  have r: "readSign ds = (False, ds)" using digit_not_sign [OF c] ds by (simp add: readSign_def)
  have tw: "takeWhile isDigit ds = ds"
    using assms(1) by (simp add: digitString_def list_all_iff)
  show ?thesis by (simp add: parseInt_def Let_def t r tw assms(2))
qed

lemma decimalValue_digits:
  assumes "digitString ds"
  shows "0 \<le> decimalValue ds" and "decimalValue ds < 10 ^ length ds"
  using decimalValue_range [of ds] assms by (simp_all add: digitString_def list_all_iff)

lemma MakeDay_day: "MakeDay yr mo dy = MakeDay yr mo 1 + (dy - 1)"
  by (simp add: MakeDay_def Let_def)

lemma monthStart_increasing:
  assumes "k < 11"
  shows "monthStart y ! k < monthStart y ! Suc k"
proof -
  from assms have "k = 0 \<or> k = 1 \<or> k = 2 \<or> k = 3 \<or> k = 4 \<or> k = 5 \<or> k = 6 \<or> k = 7
      \<or> k = 8 \<or> k = 9 \<or> k = 10" by arith
  then show ?thesis by (auto simp: monthStart_def)
qed

lemma MakeDay_month: "MakeDay yr mo 1 < MakeDay yr (mo + 1) 1"
proof -
  define mn where "mn = mo mod 12"
  have mn: "0 \<le> mn" "mn < 12" unfolding mn_def by simp_all
  have md: "(mo + 1) mod 12 = (mn + 1) mod 12" unfolding mn_def by (simp add: mod_add_left_eq)
  show ?thesis
  proof (cases "mn = 11")
    case True
    then have z: "(mo + 1) mod 12 = 0" using md by simp
    then have dv: "(mo + 1) div 12 = mo div 12 + 1" using div_step [of 12 mo] by simp
    have "monthStart (yr + mo div 12) ! 11 < (if InLeapYear (yr + mo div 12) then 366 else 365)"
      by (simp add: monthStart_def)
    then show ?thesis
      using True DayFromYear_Suc [of "yr + mo div 12"]
      by (simp add: MakeDay_def Let_def z dv mn_def [symmetric] add.assoc monthStart_def)
  next
    case False
    then have lt: "mn < 11" using mn by simp
    then have m1: "(mo + 1) mod 12 = mn + 1" using md mn by simp
    then have dv: "(mo + 1) div 12 = mo div 12" using div_step [of 12 mo] lt mn by simp
    have "nat mn < 11" using lt mn by simp
    then have "monthStart (yr + mo div 12) ! nat mn < monthStart (yr + mo div 12) ! Suc (nat mn)"
      by (rule monthStart_increasing)
    moreover have "nat (mn + 1) = Suc (nat mn)" using mn by simp
    ultimately show ?thesis
      by (simp add: MakeDay_def Let_def m1 dv mn_def [symmetric])
  qed
qed

lemma newDate_valid:
  assumes "0 \<le> y" and "y < 10000" and "0 \<le> m" and "m < 100" and "0 \<le> d" and "d < 100"
  shows "newDate (Some y) (Some (m - 1)) (Some d) 12 0 0
       = Date (Some (MakeDate (MakeDay (fullYear y) (m - 1) d) (MakeTime 12 0 0 0)))"
proof -
  define mo where "mo = m - 1"
  define ym where "ym = fullYear y + mo div 12"
  have fy: "100 \<le> fullYear y" "fullYear y \<le> 9999"
    using assms(1,2) by (auto simp: fullYear_def)
  have "- 1 \<le> mo" "mo \<le> 98" using assms(3,4) by (simp_all add: mo_def)
  then have "(- 1) div 12 \<le> mo div 12" "mo div 12 \<le> 98 div 12"
    by (simp_all add: zdiv_mono1)
  then have q: "- 1 \<le> mo div 12" "mo div 12 \<le> 8" by simp_all
  with fy have ym: "0 \<le> ym" "ym \<le> 10100" by (simp_all add: ym_def)
  have ms: "0 \<le> monthStart ym ! nat (mo mod 12)" "monthStart ym ! nat (mo mod 12) \<le> 335"
    by (rule monthStart_nth; simp)+
  have day: "MakeDay (fullYear y) mo d = DayFromYear ym + monthStart ym ! nat (mo mod 12) + d - 1"
    by (simp add: MakeDay_def Let_def ym_def)
  from DayFromYear_bounds [OF ym] ms assms(5,6)
  have "- 1000001 \<le> MakeDay (fullYear y) mo d" "MakeDay (fullYear y) mo d \<le> 4000500"
    unfolding day by simp_all
  then have "\<bar>MakeDate (MakeDay (fullYear y) mo d) (MakeTime 12 0 0 0)\<bar> \<le> 8640000000000000"
    by (simp add: MakeDate_def MakeTime_def)
  then show ?thesis
    by (simp add: newDate_def fullYear_def TimeClip_def Let_def mo_def)
qed

lemma parseDate_matched:
  assumes "matchDate s = Some (m, d, y)"
  shows "newDate (parseInt y) (map_option (\<lambda>k. k - 1) (parseInt m)) (parseInt d) 12 0 0
       = Date (Some (MakeDate (MakeDay (fullYear (decimalValue y)) (decimalValue m - 1)
            (decimalValue d)) (MakeTime 12 0 0 0)))"
proof -
  from assms have m: "digitString m" "length m = 1 \<or> length m = 2"
    and d: "digitString d" "length d = 1 \<or> length d = 2"
    and y: "digitString y" "length y = 4"
    by (auto simp: matchDate_iff)
  have ne: "m \<noteq> []" "d \<noteq> []" "y \<noteq> []" using m(2) d(2) y(2) by auto
  have pm: "parseInt m = Some (decimalValue m)" using m(1) ne(1) by (rule parseInt_digits)
  have pd: "parseInt d = Some (decimalValue d)" using d(1) ne(2) by (rule parseInt_digits)
  have py: "parseInt y = Some (decimalValue y)" using y(1) ne(3) by (rule parseInt_digits)
  have "decimalValue m < 10 ^ length m" using m(1) by (rule decimalValue_digits)
  then have bm: "decimalValue m < 100" using m(2) by auto
  have "decimalValue d < 10 ^ length d" using d(1) by (rule decimalValue_digits)
  then have bd: "decimalValue d < 100" using d(2) by auto
  have "decimalValue y < 10 ^ length y" using y(1) by (rule decimalValue_digits)
  then have ly: "decimalValue y < 10000" using y(2) by simp
  show ?thesis
    unfolding pm pd py option.map
    using decimalValue_digits(1) [OF y(1)] ly decimalValue_digits(1) [OF m(1)] bm
      decimalValue_digits(1) [OF d(1)] bd
    by (rule newDate_valid)
qed

lemma parseDate_Some:
  assumes "matchDate s = Some (m, d, y)"
  shows "parseDate s
       = Some (Date (Some (MakeDate (MakeDay (fullYear (decimalValue y)) (decimalValue m - 1)
            (decimalValue d)) (MakeTime 12 0 0 0))))"
  using assms parseDate_matched [OF assms] by (simp add: parseDate_def Let_def)

lemma parseDate_None_iff: "parseDate s = None \<longleftrightarrow> \<not> matchesDatePattern s"
proof (cases "matchDate s")
  case None
  then show ?thesis by (simp add: parseDate_def matchesDatePattern_iff)
next
  case (Some r)
  obtain m d y where "r = (m, d, y)" by (cases r) auto
  with Some have "matchDate s = Some (m, d, y)" by simp
  from parseDate_Some [OF this] Some show ?thesis by (simp add: matchesDatePattern_iff)
qed

lemma invalidDate_only:
  assumes "rowBody fmt i line = Inl (invalidDate i f)"
  shows "parseDate (splitCsvLine line ! 0) = None"
  using assms
  by (cases fmt)
     (auto simp: wellsFargoRow_def chaseRow_def bankOfAmericaRow_def capitalOneRow_def
        invalidDate_def invalidAmount_def Let_def split: if_splits option.splits)

text \<open>
  C9 (amended). \<open>parseDate\<close> rejects a date field exactly when the field fails the
  pattern of one or two digits, a slash, one or two digits, a slash and four digits, and a
  row parser gives its \<open>Invalid date\<close> diagnostic only for such a field. The validity of
  the date in the calendar is never checked: on every field that fits the pattern the
  invalid-date branch is not taken and the result is the date that lies \<open>day - 1\<close> days
  after the first day of the month reached by counting \<open>month - 1\<close> months from January
  of the year (a year from 0 to 99 counts as 1900 plus that year). The first days of the
  months come in increasing order, so a month or a day that is too large gives a later
  date, and a month or a day 0 gives an earlier one.
\<close>

theorem parseDate_pattern_only:
  "(parseDate s = None \<longleftrightarrow> \<not> matchesDatePattern s)
   \<and> (rowBody fmt i line = Inl (invalidDate i f) \<longrightarrow>
        \<not> matchesDatePattern (splitCsvLine line ! 0))
   \<and> (matchDate s = Some (m, d, y) \<longrightarrow>
        getTime (newDate (parseInt y) (map_option (\<lambda>k. k - 1) (parseInt m)) (parseInt d) 12 0 0)
          \<noteq> None
        \<and> parseDate s
          = Some (Date (Some (MakeDate
              (MakeDay (fullYear (decimalValue y)) (decimalValue m - 1) (decimalValue d))
              (MakeTime 12 0 0 0)))))
   \<and> MakeDay yr mo dy = MakeDay yr mo 1 + (dy - 1)
   \<and> MakeDay yr mo 1 < MakeDay yr (mo + 1) 1"
proof (intro conjI impI)
  show "parseDate s = None \<longleftrightarrow> \<not> matchesDatePattern s" by (rule parseDate_None_iff)
next
  assume "rowBody fmt i line = Inl (invalidDate i f)"
  then have "parseDate (splitCsvLine line ! 0) = None" by (rule invalidDate_only)
  then show "\<not> matchesDatePattern (splitCsvLine line ! 0)" by (simp add: parseDate_None_iff)
next
  assume a: "matchDate s = Some (m, d, y)"
  show "getTime (newDate (parseInt y) (map_option (\<lambda>k. k - 1) (parseInt m)) (parseInt d) 12 0 0)
          \<noteq> None"
    by (simp add: parseDate_matched [OF a])
  show "parseDate s
          = Some (Date (Some (MakeDate
              (MakeDay (fullYear (decimalValue y)) (decimalValue m - 1) (decimalValue d))
              (MakeTime 12 0 0 0))))"
    by (rule parseDate_Some [OF a])
next
  show "MakeDay yr mo dy = MakeDay yr mo 1 + (dy - 1)" by (rule MakeDay_day)
next
  show "MakeDay yr mo 1 < MakeDay yr (mo + 1) 1" by (rule MakeDay_month)
qed

theorem parseDate_pattern_only_witness:
  "chaseRow 1 ''2024-01-15,01/16/2024,Shop,Food,Sale,-5.00'' = Inl (invalidDate 1 ''2024-01-15'')
   \<and> \<not> matchesDatePattern (splitCsvLine ''2024-01-15,01/16/2024,Shop,Food,Sale,-5.00'' ! 0)
   \<and> matchDate ''13/45/2024'' = Some (''13'', ''45'', ''2024'')
   \<and> parseDate ''13/45/2024'' = Some (Date (Some 1739534400000))
   \<and> parseDate ''02/14/2025'' = Some (Date (Some 1739534400000))"
proof -
  have a: "rowBody Chase 1 ''2024-01-15,01/16/2024,Shop,Food,Sale,-5.00''
      = Inl (invalidDate 1 ''2024-01-15'')" by code_simp
  have b: "matchDate ''13/45/2024'' = Some (''13'', ''45'', ''2024'')" by code_simp
  have v: "MakeDate (MakeDay (fullYear (decimalValue ''2024'')) (decimalValue ''13'' - 1)
      (decimalValue ''45'')) (MakeTime 12 0 0 0) = 1739534400000" by code_simp
  have c: "parseDate ''02/14/2025'' = Some (Date (Some 1739534400000))" by code_simp
  note r = parseDate_pattern_only
    [of "''13/45/2024''" Chase 1 "''2024-01-15,01/16/2024,Shop,Food,Sale,-5.00''"
        "''2024-01-15''" "''13''" "''45''" "''2024''" 0 0 0]
  from r a have n: "\<not> matchesDatePattern
      (splitCsvLine ''2024-01-15,01/16/2024,Shop,Food,Sale,-5.00'' ! 0)" by blast
  from r b have "parseDate ''13/45/2024''
      = Some (Date (Some (MakeDate (MakeDay (fullYear (decimalValue ''2024''))
          (decimalValue ''13'' - 1) (decimalValue ''45'')) (MakeTime 12 0 0 0))))" by blast
  then have p: "parseDate ''13/45/2024'' = Some (Date (Some 1739534400000))"
    by (simp only: v)
  from a have a': "chaseRow 1 ''2024-01-15,01/16/2024,Shop,Food,Sale,-5.00''
      = Inl (invalidDate 1 ''2024-01-15'')" by (simp only: rowBody.simps)
  from a' n b p c show ?thesis by blast
qed

text \<open>
  C9 as stated fails on a month 0: \<open>00/15/2024\<close> fits the pattern and is read as
  15 December 2023, which is earlier than the first day of 2024, not a later date.
\<close>

theorem parseDate_rollover_counterexample:
  "matchesDatePattern ''00/15/2024''
   \<and> parseDate ''00/15/2024'' = Some (Date (Some 1702641600000))
   \<and> parseDate ''12/15/2023'' = Some (Date (Some 1702641600000))
   \<and> parseDate ''01/01/2024'' = Some (Date (Some 1704110400000))
   \<and> (1702641600000 :: int) < 1704110400000"
proof -
  have a: "parseDate ''00/15/2024'' = Some (Date (Some 1702641600000))" by code_simp
  have b: "parseDate ''12/15/2023'' = Some (Date (Some 1702641600000))" by code_simp
  have c: "parseDate ''01/01/2024'' = Some (Date (Some 1704110400000))" by code_simp
  have "matchDate ''00/15/2024'' = Some (''00'', ''15'', ''2024'')" by code_simp
  then have d: "matchesDatePattern ''00/15/2024''"
    by (simp only: matchesDatePattern_iff option.distinct not_False_eq_True)
  have e: "(1702641600000 :: int) < 1704110400000" by simp
  from a b c d e show ?thesis by blast
qed

section \<open>Numeric prefixes\<close>

lemma takeWhile_nil: "w = [] \<or> \<not> P (hd w) \<Longrightarrow> takeWhile P w = [] \<and> dropWhile P w = w"
  by (cases w) auto

lemma digits_then:
  assumes "digitString ds" and "w = [] \<or> \<not> isDigit (hd w)"
  shows "takeWhile isDigit (ds @ w) = ds" and "dropWhile isDigit (ds @ w) = w"
  using assms takeWhile_nil [of w isDigit]
  by (simp_all add: digitString_def list_all_iff)

lemma noDigits_hd: "noDigits w \<Longrightarrow> w = [] \<or> \<not> isDigit (hd w)"
  by (cases w) (simp_all add: noDigits_def)

lemma noDigits_tl: "noDigits w \<Longrightarrow> noDigits (tl w)"
  by (cases w) (simp_all add: noDigits_def)

lemma toNumber_not_NaN: "toNumber neg x \<noteq> NaN"
  by (simp add: toNumber_def split: option.splits)

lemma readSign_suffix:
  assumes "readSign s = (neg, r)"
  shows "\<exists>sg. s = sg @ r \<and> signPrefix sg \<and> (neg \<longleftrightarrow> sg = ''-'')"
proof (cases s)
  case Nil
  with assms show ?thesis by (simp add: readSign_def signPrefix_def)
next
  case (Cons c cs)
  show ?thesis
  proof (cases "c = CHR ''-''")
    case True
    with assms Cons have "s = ''-'' @ r \<and> neg" by (auto simp: readSign_def)
    then show ?thesis by (auto simp: signPrefix_def)
  next
    case False
    show ?thesis
    proof (cases "c = CHR ''+''")
      case True
      with assms Cons have "s = ''+'' @ r \<and> \<not> neg" by (auto simp: readSign_def)
      then show ?thesis by (auto simp: signPrefix_def)
    next
      case no: False
      with False assms Cons have "s = [] @ r \<and> \<not> neg" by (auto simp: readSign_def)
      then show ?thesis by (auto simp: signPrefix_def)
    qed
  qed
qed

lemma readSign_sign:
  assumes "signPrefix sg" and "w = [] \<or> (hd w \<noteq> CHR ''-'' \<and> hd w \<noteq> CHR ''+'')"
  shows "readSign (sg @ w) = (sg = ''-'', w)"
  using assms by (cases w) (auto simp: signPrefix_def readSign_def)

lemma readExponent_noDigits:
  assumes "noDigits w"
  shows "readExponent w = 0"
proof (cases w)
  case Nil
  then show ?thesis by (simp add: readExponent_def)
next
  case (Cons c rest)
  obtain neg r where rs: "readSign rest = (neg, r)" by (cases "readSign rest") auto
  from readSign_suffix [OF rs] obtain sg where "rest = sg @ r" by blast
  with assms Cons have "noDigits r" by (simp add: noDigits_def)
  then have "takeWhile isDigit r = []" using noDigits_hd takeWhile_nil by blast
  with Cons rs show ?thesis by (simp add: readExponent_def)
qed

lemma digit_hd:
  assumes "decimalDigits ds"
  shows "ds @ w \<noteq> []" and "isDigit (hd (ds @ w))"
  using assms by (cases ds; simp add: decimalDigits_def digitString_def)+

lemma readExponent_append:
  assumes "optExponent ex" and "noDigits rest"
  shows "readExponent (ex @ rest) = readExponent ex"
proof (cases "ex = []")
  case True
  with assms(2) show ?thesis by (simp add: readExponent_noDigits) (simp add: readExponent_def)
next
  case False
  with assms(1) obtain ind sg ds where ex: "ex = ind # sg @ ds"
    and ind: "ind = CHR ''e'' \<or> ind = CHR ''E''" and sg: "signPrefix sg"
    and ds: "decimalDigits ds"
    by (auto simp: optExponent_def exponentPart_def)
  have nosign: "ds @ w = [] \<or> (hd (ds @ w) \<noteq> CHR ''-'' \<and> hd (ds @ w) \<noteq> CHR ''+'')" for w
    using digit_hd [OF ds, of w] digit_not_sign by blast
  have r1: "readSign (sg @ ds @ rest) = (sg = ''-'', ds @ rest)"
    using sg nosign [of rest] by (rule readSign_sign)
  have r2: "readSign (sg @ ds) = (sg = ''-'', ds)"
    using readSign_sign [OF sg nosign [of "[]"]] by simp
  have d: "digitString ds" using ds by (simp add: decimalDigits_def)
  have t1: "takeWhile isDigit (ds @ rest) = ds"
    using d noDigits_hd [OF assms(2)] by (rule digits_then)
  have t2: "takeWhile isDigit ds = ds" using digits_then(1) [OF d, of "[]"] by simp
  show ?thesis using ind by (auto simp: ex readExponent_def r1 r2 t1 t2)
qed

lemma exponent_hd:
  assumes "optExponent ex" and "noDigits rest"
  shows "ex @ rest = [] \<or> \<not> isDigit (hd (ex @ rest))"
proof (cases "ex = []")
  case True
  with noDigits_hd [OF assms(2)] show ?thesis by simp
next
  case False
  with assms(1) obtain ind t where "ex = ind # t" "ind = CHR ''e'' \<or> ind = CHR ''E''"
    by (auto simp: optExponent_def exponentPart_def)
  then show ?thesis by (auto simp: isDigit_def)
qed

lemma not_Infinity:
  assumes "s = [] \<or> hd s \<noteq> CHR ''I''"
  shows "\<not> startsWith s ''Infinity''"
  using assms by (cases s) (auto simp: startsWith_def)

lemma readUnsigned_Infinity: "readUnsigned neg (''Infinity'' @ w) = Infinity neg"
  by (simp add: readUnsigned_def startsWith_def)

lemma readUnsigned_fraction:
  assumes "digitString ip" and "digitString fp" and "ip \<noteq> [] \<or> fp \<noteq> []"
    and "w = [] \<or> \<not> isDigit (hd w)"
  shows "readUnsigned neg (ip @ ''.'' @ fp @ w)
       = toNumber neg (of_int (decimalValue (ip @ fp))
           * power10 (readExponent w - int (length fp)))"
proof -
  let ?s = "ip @ ''.'' @ fp @ w"
  have dot: "\<not> isDigit CHR ''.''" by (simp add: isDigit_def)
  have i: "takeWhile isDigit ?s = ip" "dropWhile isDigit ?s = ''.'' @ fp @ w"
    using digits_then [OF assms(1), of "''.'' @ fp @ w"] dot by simp_all
  have f: "takeWhile isDigit (fp @ w) = fp" "dropWhile isDigit (fp @ w) = w"
    using digits_then [OF assms(2,4)] by simp_all
  have "hd ?s \<noteq> CHR ''I''"
  proof (cases ip)
    case Nil
    then show ?thesis by simp
  next
    case (Cons c cs)
    with assms(1) have "isDigit c" by (simp add: digitString_def)
    with Cons show ?thesis by (auto simp: isDigit_def)
  qed
  then have n: "\<not> startsWith ?s ''Infinity''" by (intro not_Infinity) simp
  show ?thesis
    unfolding readUnsigned_def Let_def i using n assms(3) by (auto simp: f)
qed

lemma readUnsigned_integer:
  assumes "decimalDigits ip" and "w = [] \<or> (\<not> isDigit (hd w) \<and> hd w \<noteq> CHR ''.'')"
  shows "readUnsigned neg (ip @ w)
       = toNumber neg (of_int (decimalValue ip) * power10 (readExponent w))"
proof -
  have d: "digitString ip" "ip \<noteq> []" using assms(1) by (simp_all add: decimalDigits_def)
  have i: "takeWhile isDigit (ip @ w) = ip" "dropWhile isDigit (ip @ w) = w"
    using digits_then [OF d(1), of w] assms(2) by auto
  have "hd (ip @ w) \<noteq> CHR ''I''" using digit_hd(2) [OF assms(1), of w] by (auto simp: isDigit_def)
  then have n: "\<not> startsWith (ip @ w) ''Infinity''" by (intro not_Infinity) simp
  show ?thesis
    unfolding readUnsigned_def Let_def i using n d(2) assms(2) by auto
qed

lemma readUnsigned_plain:
  assumes "decimalDigits ip" and "noDigits w"
  shows "readUnsigned neg (ip @ w) = toNumber neg (of_int (decimalValue ip) * power10 0)"
proof (cases "w \<noteq> [] \<and> hd w = CHR ''.''")
  case True
  then obtain v where w: "w = ''.'' @ [] @ v" by (cases w) auto
  then have v: "noDigits v" using assms(2) by (simp add: noDigits_def)
  have d: "digitString ip" "ip \<noteq> []" using assms(1) by (simp_all add: decimalDigits_def)
  have "readUnsigned neg (ip @ ''.'' @ [] @ v)
      = toNumber neg (of_int (decimalValue (ip @ []))
          * power10 (readExponent v - int (length ([] :: string))))"
    by (rule readUnsigned_fraction) (use d noDigits_hd [OF v] in \<open>simp_all add: digitString_def\<close>)
  then show ?thesis using w by (simp add: readExponent_noDigits [OF v])
next
  case False
  with noDigits_hd [OF assms(2)] have "w = [] \<or> (\<not> isDigit (hd w) \<and> hd w \<noteq> CHR ''.'')"
    by blast
  from readUnsigned_integer [OF assms(1) this] show ?thesis
    by (simp add: readExponent_noDigits [OF assms(2)])
qed

lemma readUnsigned_literal_append:
  assumes "strUnsignedDecimalLiteral u" and "noDigits rest"
  shows "readUnsigned neg (u @ rest) = readUnsigned neg u"
proof -
  from assms(1) consider
      (inf) "u = ''Infinity''"
    | (frac) ip fp ex where "u = ip @ ''.'' @ fp @ ex" "decimalDigits ip" "digitString fp"
        "optExponent ex"
    | (dot) fp ex where "u = ''.'' @ fp @ ex" "decimalDigits fp" "optExponent ex"
    | (int) ip ex where "u = ip @ ex" "decimalDigits ip" "optExponent ex"
    unfolding strUnsignedDecimalLiteral_def by blast
  then show ?thesis
  proof cases
    case inf
    then show ?thesis
      using readUnsigned_Infinity [of neg rest] readUnsigned_Infinity [of neg "[]"] by simp
  next
    case frac
    have d: "digitString ip" "ip \<noteq> [] \<or> fp \<noteq> []"
      using frac(2) by (simp_all add: decimalDigits_def)
    have a: "readUnsigned neg (ip @ ''.'' @ fp @ (ex @ rest))
        = toNumber neg (of_int (decimalValue (ip @ fp))
            * power10 (readExponent (ex @ rest) - int (length fp)))"
      using d(1) frac(3) d(2) exponent_hd [OF frac(4) assms(2)]
      by (rule readUnsigned_fraction)
    have b: "readUnsigned neg (ip @ ''.'' @ fp @ (ex @ []))
        = toNumber neg (of_int (decimalValue (ip @ fp))
            * power10 (readExponent (ex @ []) - int (length fp)))"
      using d(1) frac(3) d(2) exponent_hd [OF frac(4), of "[]"]
      by (intro readUnsigned_fraction) (simp_all add: noDigits_def)
    from a b show ?thesis
      by (simp add: frac(1) readExponent_append [OF frac(4) assms(2)])
  next
    case dot
    have d: "digitString fp" "[] \<noteq> [] \<or> fp \<noteq> []"
      using dot(2) by (simp_all add: decimalDigits_def)
    have e: "digitString []" by (simp add: digitString_def)
    have a: "readUnsigned neg ([] @ ''.'' @ fp @ (ex @ rest))
        = toNumber neg (of_int (decimalValue ([] @ fp))
            * power10 (readExponent (ex @ rest) - int (length fp)))"
      using e d(1) d(2) exponent_hd [OF dot(3) assms(2)]
      by (rule readUnsigned_fraction)
    have b: "readUnsigned neg ([] @ ''.'' @ fp @ (ex @ []))
        = toNumber neg (of_int (decimalValue ([] @ fp))
            * power10 (readExponent (ex @ []) - int (length fp)))"
      using e d(1) d(2) exponent_hd [OF dot(3), of "[]"]
      by (intro readUnsigned_fraction) (simp_all add: noDigits_def)
    from a b show ?thesis
      by (simp add: dot(1) readExponent_append [OF dot(3) assms(2)])
  next
    case int
    show ?thesis
    proof (cases "ex = []")
      case True
      have n: "noDigits []" by (simp add: noDigits_def)
      from True show ?thesis
        using readUnsigned_plain [OF int(2) assms(2), of neg]
          readUnsigned_plain [OF int(2) n, of neg] by (simp add: int(1))
    next
      case False
      with int(3) obtain ind t where ex: "ex = ind # t" "ind = CHR ''e'' \<or> ind = CHR ''E''"
        by (auto simp: optExponent_def exponentPart_def)
      then have h: "\<not> isDigit (hd (ex @ w)) \<and> hd (ex @ w) \<noteq> CHR ''.''" for w
        by (auto simp: isDigit_def)
      have a: "readUnsigned neg (ip @ (ex @ rest))
          = toNumber neg (of_int (decimalValue ip) * power10 (readExponent (ex @ rest)))"
        using int(2) h [of rest] by (intro readUnsigned_integer) simp_all
      have b: "readUnsigned neg (ip @ (ex @ []))
          = toNumber neg (of_int (decimalValue ip) * power10 (readExponent (ex @ [])))"
        using int(2) h [of "[]"] by (intro readUnsigned_integer) simp_all
      from a b show ?thesis
        by (simp add: int(1) readExponent_append [OF int(3) assms(2)])
    qed
  qed
qed

lemma readUnsigned_NaN_iff:
  "readUnsigned neg s = NaN \<longleftrightarrow>
     \<not> startsWith s ''Infinity'' \<and> takeWhile isDigit s = []
     \<and> \<not> (s \<noteq> [] \<and> hd s = CHR ''.'' \<and> takeWhile isDigit (tl s) \<noteq> [])"
proof (cases "takeWhile isDigit s = []")
  case True
  then have "s = [] \<or> \<not> isDigit (hd s)" by (cases s) (auto split: if_splits)
  then have "dropWhile isDigit s = s" using takeWhile_nil by blast
  with True show ?thesis
    by (auto simp: readUnsigned_def Let_def toNumber_not_NaN)
next
  case False
  then show ?thesis by (auto simp: readUnsigned_def Let_def toNumber_not_NaN)
qed

lemma literal_start:
  assumes "strUnsignedDecimalLiteral u"
  shows "u @ w \<noteq> []" and "\<not> isWhiteSpace (hd (u @ w))"
    and "hd (u @ w) \<noteq> CHR ''-''" and "hd (u @ w) \<noteq> CHR ''+''"
proof -
  from assms consider
      (inf) "u = ''Infinity''"
    | (digit) ip t where "u = ip @ t" "decimalDigits ip"
    | (dot) t where "u = ''.'' @ t"
    unfolding strUnsignedDecimalLiteral_def by blast
  then have "u @ w \<noteq> [] \<and> \<not> isWhiteSpace (hd (u @ w)) \<and> hd (u @ w) \<noteq> CHR ''-''
      \<and> hd (u @ w) \<noteq> CHR ''+''"
  proof cases
    case inf
    then show ?thesis by (simp add: isWhiteSpace_def)
  next
    case digit
    from digit_hd [OF digit(2), of "t @ w"] digit(1)
    show ?thesis by (auto simp: digit_not_space dest: digit_not_sign)
  next
    case dot
    then show ?thesis by (simp add: isWhiteSpace_def)
  qed
  then show "u @ w \<noteq> []" and "\<not> isWhiteSpace (hd (u @ w))"
    and "hd (u @ w) \<noteq> CHR ''-''" and "hd (u @ w) \<noteq> CHR ''+''" by simp_all
qed

lemma readUnsigned_literal_not_NaN:
  assumes "strUnsignedDecimalLiteral u"
  shows "readUnsigned neg (u @ w) \<noteq> NaN"
proof -
  from assms consider
      (inf) "u = ''Infinity''"
    | (digit) ip t where "u = ip @ t" "decimalDigits ip"
    | (dot) fp t where "u = ''.'' @ fp @ t" "decimalDigits fp"
    unfolding strUnsignedDecimalLiteral_def by blast
  then show ?thesis
  proof cases
    case inf
    then show ?thesis using readUnsigned_Infinity [of neg w] by simp
  next
    case digit
    then obtain c cs where "ip = c # cs" "isDigit c"
      by (cases ip) (auto simp: decimalDigits_def digitString_def)
    with digit(1) have "takeWhile isDigit (u @ w) \<noteq> []" by simp
    then show ?thesis by (simp add: readUnsigned_NaN_iff)
  next
    case dot
    then obtain c cs where "fp = c # cs" "isDigit c"
      by (cases fp) (auto simp: decimalDigits_def digitString_def)
    with dot(1) have "takeWhile isDigit (tl (u @ w)) \<noteq> []" "hd (u @ w) = CHR ''.''" "u @ w \<noteq> []"
      by simp_all
    then show ?thesis by (simp add: readUnsigned_NaN_iff)
  qed
qed

lemma parseFloat_literal:
  assumes "signPrefix sg" and "strUnsignedDecimalLiteral u"
  shows "parseFloat (sg @ u @ w) = readUnsigned (sg = ''-'') (u @ w)"
proof -
  note st = literal_start [OF assms(2), of w]
  have "\<not> isWhiteSpace (hd (sg @ u @ w))" "sg @ u @ w \<noteq> []"
    using assms(1) st(1,2) by (auto simp: signPrefix_def isWhiteSpace_def)
  then have t: "trimStart (sg @ u @ w) = sg @ u @ w"
    unfolding trimStart_def by (cases "sg @ u @ w") auto
  have "readSign (sg @ (u @ w)) = (sg = ''-'', u @ w)"
    using assms(1) st(3,4) by (intro readSign_sign) simp_all
  with t show ?thesis by (simp add: parseFloat_def)
qed

lemma parseFloat_prefix:
  assumes "strDecimalLiteral p" and "noDigits rest"
  shows "parseFloat (p @ rest) = parseFloat p" and "\<not> isNaN (parseFloat p)"
proof -
  from assms(1) obtain sg u where p: "p = sg @ u" and sg: "signPrefix sg"
    and u: "strUnsignedDecimalLiteral u"
    by (auto simp: strDecimalLiteral_def)
  have a: "parseFloat (sg @ u @ rest) = readUnsigned (sg = ''-'') (u @ rest)"
    using sg u by (rule parseFloat_literal)
  have b: "parseFloat (sg @ u @ []) = readUnsigned (sg = ''-'') (u @ [])"
    using sg u by (rule parseFloat_literal)
  from a b show "parseFloat (p @ rest) = parseFloat p"
    using readUnsigned_literal_append [OF u assms(2), of "sg = ''-''"] by (simp add: p)
  from b show "\<not> isNaN (parseFloat p)"
    using readUnsigned_literal_not_NaN [OF u, of "sg = ''-''" "[]"] by (simp add: p isNaN_def)
qed

lemma parseFloat_trimStart: "parseFloat (trimStart s) = parseFloat s"
  by (simp add: parseFloat_def trimStart_def)

lemma parseFloat_NaN_iff: "isNaN (parseFloat s) \<longleftrightarrow> \<not> hasNumericPrefix s"
proof
  assume n: "isNaN (parseFloat s)"
  show "\<not> hasNumericPrefix s"
  proof
    assume "hasNumericPrefix s"
    then obtain sg u rest where t: "trimStart s = sg @ u @ rest" and sg: "signPrefix sg"
      and u: "strUnsignedDecimalLiteral u"
      by (auto simp: hasNumericPrefix_def strDecimalLiteral_def)
    have "parseFloat s = parseFloat (sg @ u @ rest)"
      using parseFloat_trimStart [of s] t by simp
    also have "\<dots> = readUnsigned (sg = ''-'') (u @ rest)" using sg u by (rule parseFloat_literal)
    finally show False using n readUnsigned_literal_not_NaN [OF u] by (simp add: isNaN_def)
  qed
next
  assume h: "\<not> hasNumericPrefix s"
  obtain neg w where rs: "readSign (trimStart s) = (neg, w)"
    by (cases "readSign (trimStart s)") auto
  from readSign_suffix [OF rs] obtain sg where t: "trimStart s = sg @ w" and sg: "signPrefix sg"
    by blast
  have no: "\<not> strUnsignedDecimalLiteral u" if "w = u @ rest" for u rest
  proof
    assume "strUnsignedDecimalLiteral u"
    with sg have "strDecimalLiteral (sg @ u)" by (auto simp: strDecimalLiteral_def)
    moreover have "trimStart s = (sg @ u) @ rest" using t that by simp
    ultimately show False using h unfolding hasNumericPrefix_def by blast
  qed
  have e: "optExponent []" by (simp add: optExponent_def)
  have a: "\<not> startsWith w ''Infinity''"
  proof
    assume "startsWith w ''Infinity''"
    then have "take (length ''Infinity'') w = ''Infinity''" unfolding startsWith_def .
    then have "w = ''Infinity'' @ drop (length ''Infinity'') w"
      by (metis append_take_drop_id)
    from no [OF this] show False by (simp add: strUnsignedDecimalLiteral_def)
  qed
  have b: "takeWhile isDigit w = []"
  proof (rule ccontr)
    assume ne: "takeWhile isDigit w \<noteq> []"
    have d: "decimalDigits (takeWhile isDigit w)"
      using ne by (auto simp: decimalDigits_def digitString_def list_all_iff dest: set_takeWhileD)
    have "w = takeWhile isDigit w @ dropWhile isDigit w" by simp
    from no [OF this] have "\<not> strUnsignedDecimalLiteral (takeWhile isDigit w @ [])" by simp
    with d e show False unfolding strUnsignedDecimalLiteral_def by blast
  qed
  have c: "\<not> (w \<noteq> [] \<and> hd w = CHR ''.'' \<and> takeWhile isDigit (tl w) \<noteq> [])"
  proof
    assume x: "w \<noteq> [] \<and> hd w = CHR ''.'' \<and> takeWhile isDigit (tl w) \<noteq> []"
    let ?fp = "takeWhile isDigit (tl w)"
    have d: "decimalDigits ?fp"
      using x by (auto simp: decimalDigits_def digitString_def list_all_iff dest: set_takeWhileD)
    have "w = CHR ''.'' # tl w" using x by (cases w) auto
    then have "w = (''.'' @ ?fp @ []) @ dropWhile isDigit (tl w)" by simp
    from no [OF this] have "\<not> strUnsignedDecimalLiteral (''.'' @ ?fp @ [])" .
    with d e show False unfolding strUnsignedDecimalLiteral_def by blast
  qed
  from a b c have "readUnsigned neg w = NaN" by (simp add: readUnsigned_NaN_iff)
  with rs show "isNaN (parseFloat s)" by (simp add: parseFloat_def isNaN_def)
qed

lemma invalidAmount_only:
  assumes "rowBody fmt i line = Inl (invalidAmount i f)"
  shows "isNaN (parseFloat (splitCsvLine line ! amountColumn fmt))"
  using assms
  by (cases fmt)
     (auto simp: wellsFargoRow_def chaseRow_def bankOfAmericaRow_def capitalOneRow_def
        invalidDate_def invalidAmount_def Let_def split: if_splits option.splits)

lemma rowBody_accepts:
  assumes "splitCsvLine line = flds" and "columnsOk fmt (length flds)"
    and "parseDate (flds ! 0) = Some dt"
    and "\<not> isNaN (parseFloat (flds ! amountColumn fmt))"
  shows "rowBody fmt i line
       = Inr (dt,
           if fmt = CapitalOne then jsNeg (jsAbs (parseFloat (flds ! amountColumn fmt)))
           else parseFloat (flds ! amountColumn fmt),
           flds ! descriptionColumn fmt)"
proof (cases fmt)
  case CapitalOne
  with assms capitalOneRow_amount [of line flds dt i] show ?thesis by simp
qed (use assms in \<open>simp_all add: wellsFargoRow_def chaseRow_def bankOfAmericaRow_def Let_def\<close>)

lemma literal_decimal:
  assumes "signPrefix sg" and "decimalDigits ip" and "digitString fp"
  shows "strDecimalLiteral (sg @ ip @ ''.'' @ fp)"
proof -
  have "optExponent []" by (simp add: optExponent_def)
  with assms(2,3) have "strUnsignedDecimalLiteral (ip @ ''.'' @ fp @ [])"
    unfolding strUnsignedDecimalLiteral_def by blast
  with assms(1) show ?thesis unfolding strDecimalLiteral_def by auto
qed

section \<open>Defective rows\<close>

lemma rowDefect_iff: "rowDefect fmt line \<longleftrightarrow> (\<exists>e. rowBody fmt i line = Inl e)"
proof -
  have p: "trim s = [] \<Longrightarrow> isNaN (parseFloat s)" for s
    using parseFloat_present [of s] by blast
  show ?thesis
    by (cases fmt)
       (auto simp: rowDefect_def wellsFargoRow_def chaseRow_def bankOfAmericaRow_def
          capitalOneRow_def Let_def parseDate_None_iff [symmetric] parseFloat_NaN_iff [symmetric]
          p
          split: option.splits)
qed


lemma parseRows_ok:
  assumes "\<forall>k<length ls. \<exists>r. body (i + k) (ls ! k) = Inr r"
  shows "\<exists>out. parseRows body nanoid i ls txs = Inr (txs @ out) \<and> length out = length ls
       \<and> (\<forall>k<length ls. \<forall>dt raw desc. body (i + k) (ls ! k) = Inr (dt, raw, desc) \<longrightarrow>
             out ! k = makeTransaction (nanoid (length txs + k)) dt raw desc)"
  using assms
proof (induction ls arbitrary: i txs)
  case Nil
  then show ?case by simp
next
  case (Cons line rest)
  from Cons.prems obtain r where r: "body i line = Inr r" by fastforce
  obtain dt0 raw0 desc0 where rr: "r = (dt0, raw0, desc0)" by (cases r) auto
  let ?t = "makeTransaction (nanoid (length txs)) dt0 raw0 desc0"
  have "\<forall>k<length rest. \<exists>r. body (i + 1 + k) (rest ! k) = Inr r"
  proof (intro allI impI)
    fix k assume "k < length rest"
    then have "Suc k < length (line # rest)" by simp
    with Cons.prems have "\<exists>r. body (i + Suc k) ((line # rest) ! Suc k) = Inr r" by blast
    then show "\<exists>r. body (i + 1 + k) (rest ! k) = Inr r" by simp
  qed
  from Cons.IH [OF this, of "txs @ [?t]"] obtain out where
    o: "parseRows body nanoid (i + 1) rest (txs @ [?t]) = Inr ((txs @ [?t]) @ out)"
      "length out = length rest"
      "\<forall>k<length rest. \<forall>dt raw desc. body (i + 1 + k) (rest ! k) = Inr (dt, raw, desc) \<longrightarrow>
         out ! k = makeTransaction (nanoid (length (txs @ [?t]) + k)) dt raw desc"
    by blast
  have "\<forall>k<length (line # rest). \<forall>dt raw desc.
          body (i + k) ((line # rest) ! k) = Inr (dt, raw, desc) \<longrightarrow>
          (?t # out) ! k = makeTransaction (nanoid (length txs + k)) dt raw desc"
  proof (intro allI impI)
    fix k dt raw desc
    assume k: "k < length (line # rest)"
      and b: "body (i + k) ((line # rest) ! k) = Inr (dt, raw, desc)"
    show "(?t # out) ! k = makeTransaction (nanoid (length txs + k)) dt raw desc"
    proof (cases k)
      case 0
      with b r rr show ?thesis by simp
    next
      case (Suc k')
      with k b have "k' < length rest" "body (i + 1 + k') (rest ! k') = Inr (dt, raw, desc)"
        by simp_all
      with o(3) have "out ! k' = makeTransaction (nanoid (length (txs @ [?t]) + k')) dt raw desc"
        by blast
      with Suc show ?thesis by simp
    qed
  qed
  with o(1,2) r rr show ?case by (intro exI [of _ "?t # out"]) simp
qed

lemma parseRows_Inl:
  assumes "parseRows body nanoid i ls txs = Inl e"
  shows "\<exists>k<length ls. body (i + k) (ls ! k) = Inl e"
  using assms
proof (induction ls arbitrary: i txs)
  case Nil
  then show ?case by simp
next
  case (Cons line rest)
  show ?case
  proof (cases "body i line")
    case (Inl e')
    with Cons.prems have "body (i + 0) ((line # rest) ! 0) = Inl e" by simp
    then show ?thesis by blast
  next
    case (Inr r)
    obtain dt raw desc where "r = (dt, raw, desc)" by (cases r) auto
    with Cons.prems Inr have "parseRows body nanoid (i + 1) rest
        (txs @ [makeTransaction (nanoid (length txs)) dt raw desc]) = Inl e" by simp
    from Cons.IH [OF this] obtain k where "k < length rest" "body (i + 1 + k) (rest ! k) = Inl e"
      by blast
    then have "Suc k < length (line # rest) \<and> body (i + Suc k) ((line # rest) ! Suc k) = Inl e"
      by simp
    then show ?thesis by blast
  qed
qed

lemma digit_chars:
  "char_of (48 :: nat) = CHR ''0''" "char_of (49 :: nat) = CHR ''1''"
  "char_of (50 :: nat) = CHR ''2''" "char_of (51 :: nat) = CHR ''3''"
  "char_of (52 :: nat) = CHR ''4''" "char_of (53 :: nat) = CHR ''5''"
  "char_of (54 :: nat) = CHR ''6''" "char_of (55 :: nat) = CHR ''7''"
  "char_of (56 :: nat) = CHR ''8''" "char_of (57 :: nat) = CHR ''9''"
  by code_simp+

lemma showNat_small:
  assumes "d < 10"
  shows "isDigit (char_of (48 + d))" and "digitVal (char_of (48 + d)) = int d"
proof -
  from assms have "d = 9 \<or> d = 8 \<or> d = 7 \<or> d = 6 \<or> d = 5 \<or> d = 4 \<or> d = 3 \<or> d = 2
      \<or> d = 1 \<or> d = 0" by arith
  then show "isDigit (char_of (48 + d))" and "digitVal (char_of (48 + d)) = int d"
    by (auto simp: isDigit_def digitVal_def digit_chars)
qed

lemma showNat_digits: "digitString (showNat n)"
proof (induction n rule: showNat.induct)
  case (1 n)
  show ?case
  proof (cases "n < 10")
    case True
    then show ?thesis
      by (subst showNat.simps) (simp add: digitString_def showNat_small)
  next
    case False
    have "n mod 10 < 10" by simp
    then have "isDigit (char_of (48 + n mod 10))" by (rule showNat_small)
    with False "1.IH" show ?thesis
      by (subst showNat.simps) (simp add: digitString_def)
  qed
qed

lemma decimalValue_showNat: "decimalValue (showNat n) = int n"
proof (induction n rule: showNat.induct)
  case (1 n)
  show ?case
  proof (cases "n < 10")
    case True
    then show ?thesis
      by (subst showNat.simps) (simp add: decimalValue_def showNat_small)
  next
    case False
    have "n mod 10 < 10" by simp
    then have "digitVal (char_of (48 + n mod 10)) = int (n mod 10)" by (rule showNat_small)
    with False "1.IH" show ?thesis
      by (subst showNat.simps) (simp add: decimalValue_snoc zmod_int zdiv_int)
  qed
qed

lemma rowPrefix_inj:
  assumes "rowPrefix k @ a = rowPrefix k' @ b"
  shows "k = k'" and "a = b"
proof -
  let ?x = "'': '' @ a" and ?y = "'': '' @ b"
  have e: "showNat (k + 1) @ ?x = showNat (k' + 1) @ ?y"
    using assms by (simp add: rowPrefix_def)
  have c: "\<not> isDigit (hd ?x)" "\<not> isDigit (hd ?y)" by (simp_all add: isDigit_def)
  have "takeWhile isDigit (showNat (k + 1) @ ?x) = showNat (k + 1)"
    using showNat_digits c(1) by (intro digits_then(1)) simp_all
  moreover have "takeWhile isDigit (showNat (k' + 1) @ ?y) = showNat (k' + 1)"
    using showNat_digits c(2) by (intro digits_then(1)) simp_all
  ultimately have s: "showNat (k + 1) = showNat (k' + 1)" using e by simp
  then have "decimalValue (showNat (k + 1)) = decimalValue (showNat (k' + 1))" by simp
  then show "k = k'" by (simp add: decimalValue_showNat)
  from e s show "a = b" by simp
qed

lemma invalidAmount_field:
  assumes "rowBody fmt k line = Inl (invalidAmount k f)"
  shows "fmt \<noteq> CapitalOne" and "f = splitCsvLine line ! amountColumn fmt"
    and "isNaN (parseFloat f)"
  using assms
  by (cases fmt;
      auto simp: wellsFargoRow_def chaseRow_def bankOfAmericaRow_def capitalOneRow_def
        invalidDate_def invalidAmount_def Let_def split: if_splits option.splits)+



lemma rowDefect_Inr: "rowBody fmt i line = Inr r \<Longrightarrow> \<not> rowDefect fmt line"
  unfolding rowDefect_iff [of fmt line i] by simp



section \<open>Amount fields in the parser result\<close>

lemma parsers_invalidAmount:
  assumes "parsers fmt nanoid lines = Failure (invalidAmount k f)"
  shows "fmt \<noteq> CapitalOne" and "firstRow fmt \<le> k" and "k < length lines"
    and "f = splitCsvLine (lines ! k) ! amountColumn fmt" and "\<not> hasNumericPrefix f"
proof -
  let ?s = "firstRow fmt"
  let ?ls = "drop ?s lines"
  from assms have "parseRows (rowBody fmt) nanoid ?s ?ls [] = Inl (invalidAmount k f)"
    by (simp add: parsers_rows finish_Failure)
  from parseRows_Inl [OF this] obtain j where j: "j < length ?ls"
    and b: "rowBody fmt (?s + j) (?ls ! j) = Inl (invalidAmount k f)" by blast
  from rowBody_names_row [OF b] obtain rest
    where "invalidAmount k f = rowPrefix (?s + j) @ rest" by blast
  then have "rowPrefix k @ (''Invalid amount '' @ [DQUOTE] @ f @ [DQUOTE] @ ''.'')
      = rowPrefix (?s + j) @ rest" by (simp add: invalidAmount_def)
  then have k: "k = ?s + j" by (rule rowPrefix_inj(1))
  have l: "?ls ! j = lines ! k" using j k by simp
  from b k l have r: "rowBody fmt k (lines ! k) = Inl (invalidAmount k f)" by simp
  show "firstRow fmt \<le> k" using k by simp
  show "k < length lines" using j k by simp
  show "fmt \<noteq> CapitalOne" using r by (rule invalidAmount_field(1))
  show "f = splitCsvLine (lines ! k) ! amountColumn fmt" using r by (rule invalidAmount_field(2))
  have "isNaN (parseFloat f)" using r by (rule invalidAmount_field(3))
  then show "\<not> hasNumericPrefix f" by (simp add: parseFloat_NaN_iff)
qed

lemma parsers_accepts:
  assumes "firstRow fmt \<le> i" and "i < length lines"
    and "\<forall>j. firstRow fmt \<le> j \<and> j < length lines \<longrightarrow> (\<exists>r. rowBody fmt j (lines ! j) = Inr r)"
    and "rowBody fmt i (lines ! i) = Inr (dt, raw, desc)"
  shows "acceptsRow (parsers fmt nanoid lines) (i - firstRow fmt) raw"
proof -
  let ?s = "firstRow fmt"
  let ?ls = "drop ?s lines"
  have a: "\<forall>k<length ?ls. \<exists>r. rowBody fmt (?s + k) (?ls ! k) = Inr r"
  proof (intro allI impI)
    fix k assume "k < length ?ls"
    then have "?s \<le> ?s + k \<and> ?s + k < length lines" by simp
    with assms(3) have "\<exists>r. rowBody fmt (?s + k) (lines ! (?s + k)) = Inr r" by blast
    moreover have "?ls ! k = lines ! (?s + k)" using \<open>k < length ?ls\<close> by simp
    ultimately show "\<exists>r. rowBody fmt (?s + k) (?ls ! k) = Inr r" by simp
  qed
  from parseRows_ok [OF a, of nanoid "[]"] obtain out where
    o: "parseRows (rowBody fmt) nanoid ?s ?ls [] = Inr out" "length out = length ?ls"
      "\<forall>k<length ?ls. \<forall>dt raw desc. rowBody fmt (?s + k) (?ls ! k) = Inr (dt, raw, desc) \<longrightarrow>
         out ! k = makeTransaction (nanoid (length ([] :: CsvTransaction list) + k)) dt raw desc"
    by auto
  have k: "i - ?s < length ?ls" using assms(1,2) by simp
  have "?ls ! (i - ?s) = lines ! i" using assms(1,2) by simp
  then have "rowBody fmt (?s + (i - ?s)) (?ls ! (i - ?s)) = Inr (dt, raw, desc)"
    using assms(1,4) by simp
  with o(3) k have "out ! (i - ?s)
      = makeTransaction (nanoid (length ([] :: CsvTransaction list) + (i - ?s))) dt raw desc"
    by blast
  then have "rawAmount (out ! (i - ?s)) = raw" by simp
  with o(1,2) k show ?thesis
    by (simp add: acceptsRow_def parsers_rows finish_def)
qed

lemma literal_prefix:
  assumes "strDecimalLiteral p" and "noDigits rest"
  shows "hasNumericPrefix (p @ rest)"
  using parseFloat_prefix [OF assms] parseFloat_NaN_iff [of "p @ rest"] by simp

lemma parsers_accepts_prefix:
  assumes "firstRow fmt \<le> i" and "i < length lines"
    and "\<forall>j. firstRow fmt \<le> j \<and> j < length lines \<and> j \<noteq> i \<longrightarrow> \<not> rowDefect fmt (lines ! j)"
    and "rowBody fmt i (lines ! i) = Inr (dt, raw, desc)"
  shows "acceptsRow (parsers fmt nanoid lines) (i - firstRow fmt) raw"
proof -
  have "\<exists>r. rowBody fmt j (lines ! j) = Inr r" if "firstRow fmt \<le> j \<and> j < length lines" for j
  proof (cases "j = i")
    case True
    with assms(4) show ?thesis by blast
  next
    case False
    with that assms(3) have "\<not> rowDefect fmt (lines ! j)" by blast
    then have "\<not> (\<exists>e. rowBody fmt j (lines ! j) = Inl e)"
      unfolding rowDefect_iff [of fmt "lines ! j" j] .
    then show ?thesis by (cases "rowBody fmt j (lines ! j)") auto
  qed
  then have "\<forall>j. firstRow fmt \<le> j \<and> j < length lines \<longrightarrow> (\<exists>r. rowBody fmt j (lines ! j) = Inr r)"
    by blast
  from parsers_accepts [OF assms(1,2) this assms(4)] show ?thesis .
qed

text \<open>
  C10 (amended). In the formats with one amount column (Wells Fargo, Chase, Bank of
  America) a parser ends with the \<open>Invalid amount\<close> failure of a row only when the amount
  field of that row has no numeric prefix, and the split format never gives that failure.
  \<open>parseFloat\<close> is \<open>NaN\<close> exactly on the strings that do not start, after their leading
  white space, with a decimal literal, and a field made of a decimal literal followed by
  characters none of which is a digit is read as the literal alone. When the other rows
  of the row range have no defect, a row with enough columns, a date that fits the layout
  and such a field in its amount column is accepted: the parser succeeds and the
  transaction of that row has the value of the literal as its signed amount in the formats
  with one amount column; in the split format it has minus the absolute value of the
  literal for the debit column, and the absolute value of the literal for the credit
  column of a row whose debit has no numeric prefix.
\<close>

theorem amount_prefix_accepted:
  "(isNaN (parseFloat s) \<longleftrightarrow> \<not> hasNumericPrefix s)
   \<and> (parsers fmt nanoid lines = Failure (invalidAmount k f) \<longrightarrow>
        fmt \<noteq> CapitalOne \<and> firstRow fmt \<le> k \<and> k < length lines
        \<and> f = splitCsvLine (lines ! k) ! amountColumn fmt \<and> \<not> hasNumericPrefix f)
   \<and> (strDecimalLiteral p \<longrightarrow> noDigits rest \<longrightarrow>
        \<not> isNaN (parseFloat p) \<and> parseFloat (p @ rest) = parseFloat p
        \<and> (firstRow fmt \<le> i \<longrightarrow> i < length lines \<longrightarrow>
             (\<forall>j. firstRow fmt \<le> j \<and> j < length lines \<and> j \<noteq> i
                  \<longrightarrow> \<not> rowDefect fmt (lines ! j)) \<longrightarrow>
             splitCsvLine (lines ! i) = flds \<longrightarrow> columnsOk fmt (length flds) \<longrightarrow>
             matchesDatePattern (flds ! 0) \<longrightarrow>
               (fmt \<noteq> CapitalOne \<longrightarrow> flds ! amountColumn fmt = p @ rest \<longrightarrow>
                  acceptsRow (parsers fmt nanoid lines) (i - firstRow fmt) (parseFloat p))
               \<and> (fmt = CapitalOne \<longrightarrow> flds ! 5 = p @ rest \<longrightarrow>
                    acceptsRow (parsers fmt nanoid lines) (i - firstRow fmt)
                      (jsNeg (jsAbs (parseFloat p))))
               \<and> (fmt = CapitalOne \<longrightarrow> \<not> hasNumericPrefix (flds ! 5) \<longrightarrow>
                    flds ! 6 = p @ rest \<longrightarrow>
                    acceptsRow (parsers fmt nanoid lines) (i - firstRow fmt)
                      (jsAbs (parseFloat p)))))"
proof (intro conjI impI)
  show "isNaN (parseFloat s) \<longleftrightarrow> \<not> hasNumericPrefix s" by (rule parseFloat_NaN_iff)
next
  assume a: "parsers fmt nanoid lines = Failure (invalidAmount k f)"
  show "fmt \<noteq> CapitalOne" using a by (rule parsers_invalidAmount(1))
  show "firstRow fmt \<le> k" using a by (rule parsers_invalidAmount(2))
  show "k < length lines" using a by (rule parsers_invalidAmount(3))
  show "f = splitCsvLine (lines ! k) ! amountColumn fmt" using a by (rule parsers_invalidAmount(4))
  show "\<not> hasNumericPrefix f" using a by (rule parsers_invalidAmount(5))
next
  assume p: "strDecimalLiteral p" and r: "noDigits rest"
  show "\<not> isNaN (parseFloat p)" using p r by (rule parseFloat_prefix(2))
  show "parseFloat (p @ rest) = parseFloat p" using p r by (rule parseFloat_prefix(1))
next
  assume p: "strDecimalLiteral p" and r: "noDigits rest"
    and i: "firstRow fmt \<le> i" "i < length lines"
    and o: "\<forall>j. firstRow fmt \<le> j \<and> j < length lines \<and> j \<noteq> i \<longrightarrow> \<not> rowDefect fmt (lines ! j)"
    and a: "splitCsvLine (lines ! i) = flds" "columnsOk fmt (length flds)"
      "matchesDatePattern (flds ! 0)"
    and f: "fmt \<noteq> CapitalOne" "flds ! amountColumn fmt = p @ rest"
  from a(3) obtain dt where dt: "parseDate (flds ! 0) = Some dt"
    using parseDate_None_iff [of "flds ! 0"] by (cases "parseDate (flds ! 0)") auto
  have v: "parseFloat (flds ! amountColumn fmt) = parseFloat p"
    using parseFloat_prefix(1) [OF p r] f(2) by simp
  then have "\<not> isNaN (parseFloat (flds ! amountColumn fmt))"
    using parseFloat_prefix(2) [OF p r] by simp
  from rowBody_accepts [OF a(1,2) dt this, of i] f(1) v
  have "rowBody fmt i (lines ! i) = Inr (dt, parseFloat p, flds ! descriptionColumn fmt)"
    by simp
  from parsers_accepts_prefix [OF i o this]
  show "acceptsRow (parsers fmt nanoid lines) (i - firstRow fmt) (parseFloat p)" .
next
  assume p: "strDecimalLiteral p" and r: "noDigits rest"
    and i: "firstRow fmt \<le> i" "i < length lines"
    and o: "\<forall>j. firstRow fmt \<le> j \<and> j < length lines \<and> j \<noteq> i \<longrightarrow> \<not> rowDefect fmt (lines ! j)"
    and a: "splitCsvLine (lines ! i) = flds" "columnsOk fmt (length flds)"
      "matchesDatePattern (flds ! 0)"
    and f: "fmt = CapitalOne" "flds ! 5 = p @ rest"
  from a(3) obtain dt where dt: "parseDate (flds ! 0) = Some dt"
    using parseDate_None_iff [of "flds ! 0"] by (cases "parseDate (flds ! 0)") auto
  have v: "parseFloat (flds ! 5) = parseFloat p"
    using parseFloat_prefix(1) [OF p r] f(2) by simp
  then have n: "\<not> isNaN (parseFloat (flds ! 5))"
    using parseFloat_prefix(2) [OF p r] by simp
  have len: "7 \<le> length flds" using a(2) f(1) by simp
  from capitalOneRow_amount [OF a(1) len dt, of i] n v f(1)
  have "rowBody fmt i (lines ! i) = Inr (dt, jsNeg (jsAbs (parseFloat p)), flds ! 3)"
    by simp
  from parsers_accepts_prefix [OF i o this]
  show "acceptsRow (parsers fmt nanoid lines) (i - firstRow fmt) (jsNeg (jsAbs (parseFloat p)))" .
next
  assume p: "strDecimalLiteral p" and r: "noDigits rest"
    and i: "firstRow fmt \<le> i" "i < length lines"
    and o: "\<forall>j. firstRow fmt \<le> j \<and> j < length lines \<and> j \<noteq> i \<longrightarrow> \<not> rowDefect fmt (lines ! j)"
    and a: "splitCsvLine (lines ! i) = flds" "columnsOk fmt (length flds)"
      "matchesDatePattern (flds ! 0)"
    and f: "fmt = CapitalOne" "\<not> hasNumericPrefix (flds ! 5)" "flds ! 6 = p @ rest"
  from a(3) obtain dt where dt: "parseDate (flds ! 0) = Some dt"
    using parseDate_None_iff [of "flds ! 0"] by (cases "parseDate (flds ! 0)") auto
  have v: "parseFloat (flds ! 6) = parseFloat p"
    using parseFloat_prefix(1) [OF p r] f(3) by simp
  then have n: "\<not> isNaN (parseFloat (flds ! 6))"
    using parseFloat_prefix(2) [OF p r] by simp
  have d: "isNaN (parseFloat (flds ! 5))" using f(2) by (simp add: parseFloat_NaN_iff)
  have len: "7 \<le> length flds" using a(2) f(1) by simp
  from capitalOneRow_amount [OF a(1) len dt, of i] n d v f(1)
  have "rowBody fmt i (lines ! i) = Inr (dt, jsAbs (parseFloat p), flds ! 3)"
    by simp
  from parsers_accepts_prefix [OF i o this]
  show "acceptsRow (parsers fmt nanoid lines) (i - firstRow fmt) (jsAbs (parseFloat p))" .
qed

theorem amount_prefix_accepted_witness:
  "parsers BankOfAmerica sampleIds
     [''Date,Description,Amount,Running Bal.'', ''01/15/2024,Shop,-5.00,100.00'',
      ''01/16/2024,Shop,abc,95.00'']
     = Failure (invalidAmount 2 ''abc'')
   \<and> \<not> hasNumericPrefix ''abc''
   \<and> strDecimalLiteral ''-12.50'' \<and> noDigits ''abc''
   \<and> parseFloat ''-12.50abc'' = Num True (25 / 2)
   \<and> acceptsRow (parsers WellsFargo sampleIds
        [''01/15/2024,-12.50abc,*,,Coffee'', ''01/16/2024,3.00,*,,Tea'']) 0 (Num True (25 / 2))
   \<and> acceptsRow (parsers CapitalOne sampleIds
        [''Transaction Date,Posted Date,Card No.,Description,Category,Debit,Credit'',
         ''01/16/2024,01/17/2024,1234,Shop,Food,12.00abc,'',
         ''01/17/2024,01/18/2024,1234,Cafe,Food,3.00,'']) 0 (Num True 12)
   \<and> acceptsRow (parsers CapitalOne sampleIds
        [''Transaction Date,Posted Date,Card No.,Description,Category,Debit,Credit'',
         ''01/16/2024,01/17/2024,1234,Refund,Food,,-5.00abc'',
         ''01/17/2024,01/18/2024,1234,Cafe,Food,3.00,'']) 0 (Num False 5)"
proof -
  let ?B = "[''Date,Description,Amount,Running Bal.'', ''01/15/2024,Shop,-5.00,100.00'',
      ''01/16/2024,Shop,abc,95.00'']"
  let ?W = "[''01/15/2024,-12.50abc,*,,Coffee'', ''01/16/2024,3.00,*,,Tea'']"
  let ?h = "''Transaction Date,Posted Date,Card No.,Description,Category,Debit,Credit''"
  let ?ok = "''01/17/2024,01/18/2024,1234,Cafe,Food,3.00,''"
  let ?C = "[?h, ''01/16/2024,01/17/2024,1234,Shop,Food,12.00abc,'', ?ok]"
  let ?D = "[?h, ''01/16/2024,01/17/2024,1234,Refund,Food,,-5.00abc'', ?ok]"
  let ?fw = "[''01/15/2024'', ''-12.50abc'', ''*'', '''', ''Coffee'']"
  let ?fc = "[''01/16/2024'', ''01/17/2024'', ''1234'', ''Shop'', ''Food'', ''12.00abc'', '''']"
  let ?fd = "[''01/16/2024'', ''01/17/2024'', ''1234'', ''Refund'', ''Food'', '''', ''-5.00abc'']"
  have nd: "noDigits ''abc''" by (simp add: noDigits_def isDigit_def)
  have "strDecimalLiteral (''-'' @ ''12'' @ ''.'' @ ''50'')"
    by (rule literal_decimal)
       (simp_all add: signPrefix_def decimalDigits_def digitString_def isDigit_def)
  then have l1: "strDecimalLiteral ''-12.50''" by simp
  have "strDecimalLiteral ([] @ ''12'' @ ''.'' @ ''00'')"
    by (rule literal_decimal)
       (simp_all add: signPrefix_def decimalDigits_def digitString_def isDigit_def)
  then have l2: "strDecimalLiteral ''12.00''" by simp
  have "strDecimalLiteral (''-'' @ ''5'' @ ''.'' @ ''00'')"
    by (rule literal_decimal)
       (simp_all add: signPrefix_def decimalDigits_def digitString_def isDigit_def)
  then have l3: "strDecimalLiteral ''-5.00''" by simp
  have v: "parseFloat ''-12.50'' = Num True (25 / 2)" "parseFloat ''12.00'' = Num False 12"
    "parseFloat ''-5.00'' = Num True 5" by code_simp+
  have "matchDate ''01/15/2024'' = Some (''01'', ''15'', ''2024'')" by code_simp
  then have m1: "matchesDatePattern (?fw ! 0)" by (simp add: matchesDatePattern_iff)
  have "matchDate ''01/16/2024'' = Some (''01'', ''16'', ''2024'')" by code_simp
  then have m2: "matchesDatePattern (?fc ! 0)" "matchesDatePattern (?fd ! 0)"
    by (simp_all add: matchesDatePattern_iff)
  have "rowBody WellsFargo 1 ''01/16/2024,3.00,*,,Tea''
      = Inr (Date (Some 1705406400000), Num False 3, ''Tea'')" by code_simp
  then have w1: "\<not> rowDefect WellsFargo ''01/16/2024,3.00,*,,Tea''" by (rule rowDefect_Inr)
  have "rowBody CapitalOne 2 ?ok = Inr (Date (Some 1705492800000), Num True 3, ''Cafe'')"
    by code_simp
  then have c2: "\<not> rowDefect CapitalOne ?ok" by (rule rowDefect_Inr)
  have qw: "\<forall>j. firstRow WellsFargo \<le> j \<and> j < length ?W \<and> j \<noteq> 0
      \<longrightarrow> \<not> rowDefect WellsFargo (?W ! j)"
  proof (intro allI impI)
    fix j :: nat assume "firstRow WellsFargo \<le> j \<and> j < length ?W \<and> j \<noteq> 0"
    then have "j = 1" by auto
    with w1 show "\<not> rowDefect WellsFargo (?W ! j)" by simp
  qed
  have qc: "\<forall>j. firstRow CapitalOne \<le> j \<and> j < length ?C \<and> j \<noteq> 1
      \<longrightarrow> \<not> rowDefect CapitalOne (?C ! j)"
  proof (intro allI impI)
    fix j :: nat assume "firstRow CapitalOne \<le> j \<and> j < length ?C \<and> j \<noteq> 1"
    then have "j = 2" by auto
    with c2 show "\<not> rowDefect CapitalOne (?C ! j)" by simp
  qed
  have qd: "\<forall>j. firstRow CapitalOne \<le> j \<and> j < length ?D \<and> j \<noteq> 1
      \<longrightarrow> \<not> rowDefect CapitalOne (?D ! j)"
  proof (intro allI impI)
    fix j :: nat assume "firstRow CapitalOne \<le> j \<and> j < length ?D \<and> j \<noteq> 1"
    then have "j = 2" by auto
    with c2 show "\<not> rowDefect CapitalOne (?D ! j)" by simp
  qed
  have sw: "splitCsvLine (?W ! 0) = ?fw" by code_simp
  have sc: "splitCsvLine (?C ! 1) = ?fc" by code_simp
  have sd: "splitCsvLine (?D ! 1) = ?fd" by code_simp
  have iw: "firstRow WellsFargo \<le> 0" "0 < length ?W" "columnsOk WellsFargo (length ?fw)"
    "WellsFargo \<noteq> CapitalOne" "?fw ! amountColumn WellsFargo = ''-12.50'' @ ''abc''"
    by simp_all
  have ic: "firstRow CapitalOne \<le> 1" "1 < length ?C" "columnsOk CapitalOne (length ?fc)"
    "?fc ! 5 = ''12.00'' @ ''abc''" by simp_all
  have id: "firstRow CapitalOne \<le> 1" "1 < length ?D" "columnsOk CapitalOne (length ?fd)"
    "?fd ! 6 = ''-5.00'' @ ''abc''" by simp_all
  have "isNaN (parseFloat '''')" by code_simp
  then have "\<not> hasNumericPrefix ''''" by (simp add: parseFloat_NaN_iff)
  then have nd5: "\<not> hasNumericPrefix (?fd ! 5)" by simp
  have fb: "parsers BankOfAmerica sampleIds ?B = Failure (invalidAmount 2 ''abc'')"
    by code_simp
  from amount_prefix_accepted
    [where fmt = BankOfAmerica and nanoid = sampleIds and lines = ?B and k = 2
       and f = "''abc''"] fb
  have n: "\<not> hasNumericPrefix ''abc''" by blast
  from amount_prefix_accepted
    [where fmt = WellsFargo and nanoid = sampleIds and lines = ?W and i = 0
       and p = "''-12.50''" and rest = "''abc''" and flds = ?fw]
    l1 nd iw qw sw m1
  have "parseFloat (''-12.50'' @ ''abc'') = parseFloat ''-12.50''
      \<and> acceptsRow (parsers WellsFargo sampleIds ?W) (0 - firstRow WellsFargo)
          (parseFloat ''-12.50'')"
    by blast
  then have aw: "parseFloat ''-12.50abc'' = Num True (25 / 2)"
      "acceptsRow (parsers WellsFargo sampleIds ?W) 0 (Num True (25 / 2))"
    using v(1) by simp_all
  from amount_prefix_accepted
    [where fmt = CapitalOne and nanoid = sampleIds and lines = ?C and i = 1
       and p = "''12.00''" and rest = "''abc''" and flds = ?fc]
    l2 nd ic qc sc m2(1)
  have "acceptsRow (parsers CapitalOne sampleIds ?C) (1 - firstRow CapitalOne)
          (jsNeg (jsAbs (parseFloat ''12.00'')))"
    by blast
  then have ac: "acceptsRow (parsers CapitalOne sampleIds ?C) 0 (Num True 12)"
    using v(2) by simp
  from amount_prefix_accepted
    [where fmt = CapitalOne and nanoid = sampleIds and lines = ?D and i = 1
       and p = "''-5.00''" and rest = "''abc''" and flds = ?fd]
    l3 nd id qd sd m2(2) nd5
  have "acceptsRow (parsers CapitalOne sampleIds ?D) (1 - firstRow CapitalOne)
          (jsAbs (parseFloat ''-5.00''))"
    by blast
  then have ad: "acceptsRow (parsers CapitalOne sampleIds ?D) 0 (Num False 5)"
    using v(3) by simp
  from fb n l1 nd aw ac ad show ?thesis by blast
qed

text \<open>
  C10 as stated fails in the split format, where the numeric prefix is not used as the
  signed amount: the credit field \<open>-5.00abc\<close> has the numeric prefix \<open>-5.00\<close>, whose
  value is -5, and the row is accepted with the signed amount 5.
\<close>

theorem amount_prefix_counterexample:
  "strDecimalLiteral ''-5.00'' \<and> noDigits ''abc''
   \<and> parseFloat ''-5.00'' = Num True 5
   \<and> parseCsv sampleIds
        (''Transaction Date,Posted Date,Card No.,Description,Category,Debit,Credit''
           @ [CHR 0x0A] @ ''01/16/2024,01/17/2024,1234,Refund,Food,,-5.00abc'') None
     = Success [\<lparr> id_tx = ''tx0'', date = Date (Some 1705406400000), amount = Num False 500,
          rawAmount = Num False 5, isCredit = True, description = ''Refund'',
          selected = False \<rparr>] CapitalOne"
proof -
  have "strDecimalLiteral (''-'' @ ''5'' @ ''.'' @ ''00'')"
    by (rule literal_decimal)
       (simp_all add: signPrefix_def decimalDigits_def digitString_def isDigit_def)
  then have a: "strDecimalLiteral ''-5.00''" by simp
  have b: "noDigits ''abc''" by (simp add: noDigits_def isDigit_def)
  have c: "parseFloat ''-5.00'' = Num True 5" by code_simp
  have d: "parseCsv sampleIds
        (''Transaction Date,Posted Date,Card No.,Description,Category,Debit,Credit''
           @ [CHR 0x0A] @ ''01/16/2024,01/17/2024,1234,Refund,Food,,-5.00abc'') None
     = Success [\<lparr> id_tx = ''tx0'', date = Date (Some 1705406400000), amount = Num False 500,
          rawAmount = Num False 5, isCredit = True, description = ''Refund'',
          selected = False \<rparr>] CapitalOne" by code_simp
  from a b c d show ?thesis by blast
qed

end
